theory Spec2Isabelle
  imports Main "HOL-Library.Sublist" "HOL-Library.List_Lexorder" "HOL-Library.AList"
    "HOL-Library.Multiset"
begin

section \<open>Semantic locators: match resolution (find\_by\_semantic\_locator.ts)\<close>

subsection \<open>Elements, document order and containment\<close>

text \<open>
  The source works on opaque \<^verbatim>\<open>HTMLElement\<close> handles, of which it uses two capabilities
  only: comparison by document position and \<^verbatim>\<open>contains\<close>. An element is modelled by its
  path in the tree: the list of child indices leading to it from the top of the document.
  Document order is the depth-first pre-order, which on paths is the lexicographic order
  in which a path precedes all its extensions (the order of the library theory
  \<^verbatim>\<open>List_Lexorder\<close>);
  an element contains another when its path is a prefix of the other's.
\<close>

type_synonym element = "nat list"

text \<open>\<^verbatim>\<open>Node.contains\<close>: inclusive, an element contains itself.\<close>

definition contains :: "element \<Rightarrow> element \<Rightarrow> bool" where
  "contains outer inner = prefix outer inner"

definition isAncestor :: "element \<Rightarrow> element \<Rightarrow> bool" where
  "isAncestor other node = (other \<noteq> node \<and> contains other node)"

text \<open>
  Modelled from the spec: \<^verbatim>\<open>compareNodeOrder\<close> of util.ts is not among the sources.
  The spec: a total ordering over elements by document position. Negative when
  the first element precedes the second, zero for the same element, positive otherwise.
\<close>

definition compareNodeOrder :: "element \<Rightarrow> element \<Rightarrow> int" where
  "compareNodeOrder first second =
     (if first = second then 0 else if first < second then - 1 else 1)"

text \<open>
  \<^verbatim>\<open>Array.prototype.sort(compareFn)\<close>: a stable sort by the comparator, here by insertion.
\<close>

fun insertByCompare :: "('a \<Rightarrow> 'a \<Rightarrow> int) \<Rightarrow> 'a \<Rightarrow> 'a list \<Rightarrow> 'a list" where
  "insertByCompare cmp x [] = [x]"
| "insertByCompare cmp x (y # ys) =
     (if cmp x y \<le> 0 then x # y # ys else y # insertByCompare cmp x ys)"

definition arraySort :: "('a \<Rightarrow> 'a \<Rightarrow> int) \<Rightarrow> 'a list \<Rightarrow> 'a list" where
  "arraySort cmp xs = foldr (insertByCompare cmp) xs []"

text \<open>
  Modelled from the spec: \<^verbatim>\<open>removeDuplicates\<close> of util.ts is not among the sources.
  The spec: duplicate removal preserving the induced order, deduplication by identity.
  The first occurrence of every element is kept.
\<close>

fun removeDuplicates :: "'a list \<Rightarrow> 'a list" where
  "removeDuplicates [] = []"
| "removeDuplicates (x # xs) = x # removeDuplicates (filter (\<lambda>y. y \<noteq> x) xs)"

text \<open>
  Modelled from the spec: \<^verbatim>\<open>outerNodesOnly\<close> of outer.ts is not among the sources.
  The spec: retains only elements from a set that have no ancestor also present in that
  same set.
\<close>

definition outerNodesOnly :: "element list \<Rightarrow> element list" where
  "outerNodesOnly nodes =
     filter (\<lambda>node. \<not> list_ex (\<lambda>other. isAncestor other node) nodes) nodes"

text \<open>
  Modelled from the spec: \<^verbatim>\<open>assertInDocumentOrder\<close> of util.ts is not among the sources.
  The spec: the surviving set must already be in document order; if not, this is an
  internal invariant violation, fatal and never swallowed. The check compares neighbours
  and accepts a repeated element.
\<close>

fun inDocumentOrder :: "element list \<Rightarrow> bool" where
  "inDocumentOrder [] = True"
| "inDocumentOrder [x] = True"
| "inDocumentOrder (x # y # ys) = (compareNodeOrder x y \<le> 0 \<and> inDocumentOrder (y # ys))"

subsection \<open>Locators and results\<close>

text \<open>
  The types of semantic\_locator.ts and lookup\_result.ts are not among the sources; their
  fields are those the source reads and writes. \<^verbatim>\<open>AttributeMap\<close> is a JavaScript object
  from attribute name to value; \<^verbatim>\<open>entries\<close> iterates it in insertion order, so it is an
  association list, the order of which is the iteration order. The keys of an object are
  unique. The optional \<^verbatim>\<open>name\<close> of a node is a string; the optional \<^verbatim>\<open>partialFind\<close> of a
  diagnostic is absent (\<open>None\<close>) where the source's object literal has no such field.
\<close>

type_synonym AttributeMap = "(string \<times> string) list"

record SemanticNode =
  role :: string
  attributes :: AttributeMap
  name :: "string option"

record SemanticLocator =
  preOuter :: "SemanticNode list"
  postOuter :: "SemanticNode list"

datatype NotFound =
    NotFoundRole string
  | NotFoundAttribute string string
  | NotFoundName string

record PartialFind =
  partialRole :: string
  partialAttributes :: AttributeMap

record EmptyResultsMetadata =
  closestFind :: "SemanticNode list"
  elementsFound :: "element list"
  notFound :: NotFound
  partialFind :: "PartialFind option"

datatype Result =
    NonEmptyResult (found: "element list")
  | EmptyResults (metadata: EmptyResultsMetadata)

text \<open>
  Modelled from the spec: the type guards \<^verbatim>\<open>isEmptyResultsMetadata\<close> and
  \<^verbatim>\<open>isNonEmptyResult\<close> of lookup\_result.ts are not among the sources. The spec: a result
  is a tagged union of a Found and a NotFound variant.
\<close>

fun isEmptyResultsMetadata :: "Result \<Rightarrow> bool" where
  "isEmptyResultsMetadata (EmptyResults m) = True"
| "isEmptyResultsMetadata (NonEmptyResult f) = False"

fun isNonEmptyResult :: "Result \<Rightarrow> bool" where
  "isNonEmptyResult (NonEmptyResult f) = True"
| "isNonEmptyResult (EmptyResults m) = False"

text \<open>
  What the source can throw. \<^verbatim>\<open>NotInDocumentOrder\<close> is the error of
  \<^verbatim>\<open>assertInDocumentOrder\<close>; \<^verbatim>\<open>NotEmptyResultsMetadata\<close> stands for the failure of the
  cast \<^verbatim>\<open>results as EmptyResultsMetadata[]\<close> on a result that has no \<^verbatim>\<open>closestFind\<close>;
  \<^verbatim>\<open>NothingToCombine\<close> for combining an empty array of diagnostics.
\<close>

datatype error =
    ParseError
  | NotInDocumentOrder
  | NotEmptyResultsMetadata
  | NothingToCombine
  | NoSuchElementError string

subsection \<open>Collaborators\<close>

text \<open>
  The functions the module imports from the parser, the role finder, the attribute
  resolver and the accessible-name algorithm are parameters of the model.
\<close>

record collaborators =
  parse :: "string \<Rightarrow> error + SemanticLocator"
  findByRole :: "string \<Rightarrow> element \<Rightarrow> bool \<Rightarrow> bool \<Rightarrow> element list"
  computeARIAAttributeValue :: "element \<Rightarrow> string \<Rightarrow> string option"
  getNameFor :: "element \<Rightarrow> string"
  nameMatches :: "string \<Rightarrow> string \<Rightarrow> bool"
  buildFailureMessage ::
    "SemanticLocator \<Rightarrow> EmptyResultsMetadata \<Rightarrow> element list \<Rightarrow> element list \<Rightarrow> string"

text \<open>
  Modelled from the spec: \<^verbatim>\<open>entries\<close> of util.ts is not among the sources. The spec: the
  declared attributes, in iteration order.
\<close>

definition entries :: "AttributeMap \<Rightarrow> (string \<times> string) list" where
  "entries m = m"

text \<open>
  Modelled from the spec: \<^verbatim>\<open>combineMostSpecific\<close> of lookup\_result.ts is not among the
  sources. The spec: among all per-base NotFound results, select the one with the longest
  \<^verbatim>\<open>closestFind\<close>; on a tie, the first such base in base-iteration order.
\<close>

fun mostSpecific ::
  "EmptyResultsMetadata \<Rightarrow> EmptyResultsMetadata list \<Rightarrow> EmptyResultsMetadata" where
  "mostSpecific best [] = best"
| "mostSpecific best (m # ms) =
     (if length (closestFind best) < length (closestFind m)
      then mostSpecific m ms else mostSpecific best ms)"

fun combineMostSpecific :: "EmptyResultsMetadata list \<Rightarrow> error + EmptyResultsMetadata" where
  "combineMostSpecific [] = Inl NothingToCombine"
| "combineMostSpecific (m # ms) = Inr (mostSpecific m ms)"

text \<open>
  The cast \<^verbatim>\<open>results as EmptyResultsMetadata[]\<close>: every result has to be a diagnostic,
  since a Found result has no \<^verbatim>\<open>closestFind\<close> to measure.
\<close>

fun asEmptyResultsMetadata :: "Result list \<Rightarrow> error + EmptyResultsMetadata list" where
  "asEmptyResultsMetadata [] = Inr []"
| "asEmptyResultsMetadata (NonEmptyResult f # rs) = Inl NotEmptyResultsMetadata"
| "asEmptyResultsMetadata (EmptyResults m # rs) =
     (case asEmptyResultsMetadata rs of Inl e \<Rightarrow> Inl e | Inr ms \<Rightarrow> Inr (m # ms))"

subsection \<open>The semantic node matcher\<close>

text \<open>
  The loop over \<^verbatim>\<open>entries(node.attributes)\<close>: the state is the narrowed element list and
  the object \<^verbatim>\<open>resolvedAttributes\<close>; a failing attribute returns the diagnostic.
\<close>

fun attributeStage ::
  "collaborators \<Rightarrow> string \<Rightarrow> (string \<times> string) list \<Rightarrow> element list \<Rightarrow> AttributeMap
     \<Rightarrow> EmptyResultsMetadata + element list" where
  "attributeStage c r [] elements resolvedAttributes = Inr elements"
| "attributeStage c r ((attrName, attrValue) # rest) elements resolvedAttributes =
     (let nextElements =
            filter (\<lambda>element. computeARIAAttributeValue c element attrName = Some attrValue)
              elements
      in if nextElements = [] then
           Inl \<lparr>closestFind = [], elementsFound = elements,
                notFound = NotFoundAttribute attrName attrValue,
                partialFind =
                  Some \<lparr>partialRole = r, partialAttributes = resolvedAttributes\<rparr>\<rparr>
         else attributeStage c r rest nextElements
                (AList.update attrName attrValue resolvedAttributes))"

text \<open>
  \<^verbatim>\<open>if (node.name)\<close>: the name is optional and a string, so it counts when it is present
  and not the empty string.
\<close>

definition nameStage ::
  "collaborators \<Rightarrow> SemanticNode \<Rightarrow> element list \<Rightarrow> EmptyResultsMetadata + element list" where
  "nameStage c node elements =
     (case name node of
        None \<Rightarrow> Inr elements
      | Some n \<Rightarrow>
          if n = [] then Inr elements
          else
            let nextElements =
                  filter (\<lambda>element. nameMatches c n (getNameFor c element)) elements
            in if nextElements = [] then
                 Inl \<lparr>closestFind = [], elementsFound = elements,
                      notFound = NotFoundName n,
                      partialFind =
                        Some \<lparr>partialRole = role node,
                              partialAttributes = attributes node\<rparr>\<rparr>
               else Inr nextElements)"

definition findBySemanticNode ::
  "collaborators \<Rightarrow> SemanticNode \<Rightarrow> element list \<Rightarrow> bool \<Rightarrow> bool \<Rightarrow> error + Result" where
  "findBySemanticNode c node searchBase0 includeHidden includePresentational =
     (let searchBase = outerNodesOnly searchBase0;
          elements =
            concat (map (\<lambda>base. findByRole c (role node) base includeHidden
                                   includePresentational) searchBase)
      in if elements = [] then
           Inr (EmptyResults
                  \<lparr>closestFind = [], elementsFound = searchBase,
                   notFound = NotFoundRole (role node), partialFind = None\<rparr>)
         else
           case attributeStage c (role node) (entries (attributes node)) elements [] of
             Inl m \<Rightarrow> Inr (EmptyResults m)
           | Inr elements1 \<Rightarrow>
               (case nameStage c node elements1 of
                  Inl m \<Rightarrow> Inr (EmptyResults m)
                | Inr elements2 \<Rightarrow>
                    if inDocumentOrder elements2 then Inr (NonEmptyResult elements2)
                    else Inl NotInDocumentOrder))"

subsection \<open>The segment searcher\<close>

function findBySemanticNodesFrom ::
  "collaborators \<Rightarrow> SemanticNode list \<Rightarrow> nat \<Rightarrow> element list \<Rightarrow> bool \<Rightarrow> bool
     \<Rightarrow> error + Result" where
  "findBySemanticNodesFrom c nodes i searchBase includeHidden includePresentational =
     (if i < length nodes then
        (case findBySemanticNode c (nodes ! i) searchBase includeHidden
                includePresentational of
           Inl e \<Rightarrow> Inl e
         | Inr (EmptyResults result) \<Rightarrow>
             Inr (EmptyResults
                    \<lparr>closestFind = take i nodes,
                     elementsFound = elementsFound result,
                     notFound = notFound result,
                     partialFind = partialFind result\<rparr>)
         | Inr (NonEmptyResult f) \<Rightarrow>
             findBySemanticNodesFrom c nodes (Suc i) f includeHidden includePresentational)
      else Inr (NonEmptyResult searchBase))"
  by pat_completeness auto
termination
  by (relation "measure (\<lambda>(c, nodes, i, searchBase, h, p). length nodes - i)") auto

definition findBySemanticNodes ::
  "collaborators \<Rightarrow> SemanticNode list \<Rightarrow> element list \<Rightarrow> bool \<Rightarrow> bool \<Rightarrow> error + Result" where
  "findBySemanticNodes c nodes searchBase includeHidden includePresentational =
     findBySemanticNodesFrom c nodes 0 searchBase includeHidden includePresentational"

subsection \<open>The outer-semantics combiner\<close>

text \<open>\<^verbatim>\<open>Array.prototype.map\<close> with a callback that may throw: the first error ends it.\<close>

fun mapResults :: "('a \<Rightarrow> error + 'b) \<Rightarrow> 'a list \<Rightarrow> error + 'b list" where
  "mapResults f [] = Inr []"
| "mapResults f (x # xs) =
     (case f x of
        Inl e \<Rightarrow> Inl e
      | Inr y \<Rightarrow> (case mapResults f xs of Inl e \<Rightarrow> Inl e | Inr ys \<Rightarrow> Inr (y # ys)))"

definition mergeFound :: "Result list \<Rightarrow> element list" where
  "mergeFound results =
     concat (map (\<lambda>result. outerNodesOnly (found result)) (filter isNonEmptyResult results))"

definition findBySemanticLocator ::
  "collaborators \<Rightarrow> SemanticLocator \<Rightarrow> element \<Rightarrow> bool \<Rightarrow> bool \<Rightarrow> error + Result" where
  "findBySemanticLocator c locator root includeHidden includePresentational =
     (case findBySemanticNodes c (preOuter locator) [root] includeHidden
             includePresentational of
        Inl e \<Rightarrow> Inl e
      | Inr (EmptyResults m) \<Rightarrow> Inr (EmptyResults m)
      | Inr (NonEmptyResult bases) \<Rightarrow>
          if postOuter locator = [] then Inr (NonEmptyResult bases)
          else
            (case mapResults
                    (\<lambda>base. findBySemanticNodes c (postOuter locator) [base] includeHidden
                              includePresentational) bases of
               Inl e \<Rightarrow> Inl e
             | Inr results \<Rightarrow>
                 let elementsFound = mergeFound results in
                 if elementsFound = [] then
                   (case asEmptyResultsMetadata results of
                      Inl e \<Rightarrow> Inl e
                    | Inr metas \<Rightarrow>
                        (case combineMostSpecific metas of
                           Inl e \<Rightarrow> Inl e
                         | Inr noneFound \<Rightarrow>
                             Inr (EmptyResults
                                    \<lparr>closestFind = preOuter locator @ closestFind noneFound,
                                     elementsFound = EmptyResultsMetadata.elementsFound noneFound,
                                     notFound = notFound noneFound,
                                     partialFind = partialFind noneFound\<rparr>)))
                 else
                   Inr (NonEmptyResult
                          (removeDuplicates (arraySort compareNodeOrder elementsFound)))))"

subsection \<open>The public resolution API\<close>

definition findElementsBySemanticLocator ::
  "collaborators \<Rightarrow> string \<Rightarrow> element \<Rightarrow> error + element list" where
  "findElementsBySemanticLocator c locator root =
     (case parse c locator of
        Inl e \<Rightarrow> Inl e
      | Inr parsed \<Rightarrow>
          (case findBySemanticLocator c parsed root False False of
             Inl e \<Rightarrow> Inl e
           | Inr (EmptyResults m) \<Rightarrow> Inr []
           | Inr (NonEmptyResult f) \<Rightarrow> Inr f))"

text \<open>
  \<^verbatim>\<open>findElementBySemanticLocator\<close> calls the combiner up to three times. The model returns,
  beside the outcome, the passes made: the flags \<^verbatim>\<open>(includeHidden, includePresentational)\<close>
  of every call of \<^verbatim>\<open>findBySemanticLocator\<close>, in order. \<^verbatim>\<open>result.found[0]\<close> of an empty
  array is \<^verbatim>\<open>undefined\<close>, here \<open>None\<close>.
\<close>

type_synonym pass = "bool \<times> bool"

definition matchesOf :: "Result \<Rightarrow> element list" where
  "matchesOf result = (if isEmptyResultsMetadata result then [] else found result)"

definition findElementBySemanticLocator ::
  "collaborators \<Rightarrow> string \<Rightarrow> element \<Rightarrow> (error + element option) \<times> pass list" where
  "findElementBySemanticLocator c locator root =
     (case parse c locator of
        Inl e \<Rightarrow> (Inl e, [])
      | Inr parsed \<Rightarrow>
          (case findBySemanticLocator c parsed root False False of
             Inl e \<Rightarrow> (Inl e, [(False, False)])
           | Inr (NonEmptyResult f) \<Rightarrow>
               (Inr (case f of [] \<Rightarrow> None | x # xs \<Rightarrow> Some x), [(False, False)])
           | Inr (EmptyResults result) \<Rightarrow>
               (case findBySemanticLocator c parsed root True False of
                  Inl e \<Rightarrow> (Inl e, [(False, False), (True, False)])
                | Inr hiddenResult \<Rightarrow>
                    let hiddenMatches = matchesOf hiddenResult in
                    (case findBySemanticLocator c parsed root False True of
                       Inl e \<Rightarrow> (Inl e, [(False, False), (True, False), (False, True)])
                     | Inr presentationalResult \<Rightarrow>
                         let presentationalMatches = matchesOf presentationalResult in
                         (Inl (NoSuchElementError
                                 (buildFailureMessage c parsed result hiddenMatches
                                    presentationalMatches)),
                          [(False, False), (True, False), (False, True)])))))"

subsection \<open>Contracts and characterisations used in the statements\<close>

text \<open>
  The contract of the role finder (for one setting of the two flags): the result for
  every base is in document order, each element once, and confined to the base's subtree.
\<close>

definition roleFinderContract :: "collaborators \<Rightarrow> bool \<Rightarrow> bool \<Rightarrow> bool" where
  "roleFinderContract c includeHidden includePresentational \<longleftrightarrow>
     (\<forall>r base.
        sorted_wrt (<) (findByRole c r base includeHidden includePresentational) \<and>
        (\<forall>x \<in> set (findByRole c r base includeHidden includePresentational).
           contains base x))"

text \<open>The elements of the role stage, and the elements that pass given attributes.\<close>

definition roleElements ::
  "collaborators \<Rightarrow> SemanticNode \<Rightarrow> element list \<Rightarrow> bool \<Rightarrow> bool \<Rightarrow> element list" where
  "roleElements c node searchBase includeHidden includePresentational =
     concat (map (\<lambda>base. findByRole c (role node) base includeHidden includePresentational)
               (outerNodesOnly searchBase))"

definition matchesAll :: "collaborators \<Rightarrow> (string \<times> string) list \<Rightarrow> element \<Rightarrow> bool" where
  "matchesAll c attrs element =
     list_all (\<lambda>(n, v). computeARIAAttributeValue c element n = Some v) attrs"

definition namePasses :: "collaborators \<Rightarrow> SemanticNode \<Rightarrow> element \<Rightarrow> bool" where
  "namePasses c node element =
     (case name node of
        None \<Rightarrow> True
      | Some n \<Rightarrow> n = [] \<or> nameMatches c n (getNameFor c element))"

text \<open>The elements that pass all three stages of the matcher.\<close>

definition survivors ::
  "collaborators \<Rightarrow> SemanticNode \<Rightarrow> element list \<Rightarrow> bool \<Rightarrow> bool \<Rightarrow> element list" where
  "survivors c node searchBase includeHidden includePresentational =
     filter (namePasses c node)
       (filter (matchesAll c (attributes node))
          (roleElements c node searchBase includeHidden includePresentational))"

text \<open>A candidate set is outermost-filtered when no member is an ancestor of another.\<close>

definition outermostFiltered :: "element list \<Rightarrow> bool" where
  "outermostFiltered nodes =
     list_all (\<lambda>node. \<not> list_ex (\<lambda>other. isAncestor other node) nodes) nodes"

subsection \<open>Example documents\<close>

text \<open>
  A document is given by its nodes in document order, each with its path, role, ARIA
  attributes, accessible name and whether it is hidden. The role finder looks below
  the base; a name matches when it is equal; the parser is a table.
\<close>

datatype documentNode =
  DocumentNode (nodePath: element) (nodeRole: string) (nodeAttributes: AttributeMap)
    (nodeName: string) (nodeHidden: bool)

definition documentCollaborators ::
  "documentNode list \<Rightarrow> (string \<times> SemanticLocator) list \<Rightarrow> collaborators" where
  "documentCollaborators doc locators =
     \<lparr>parse = (\<lambda>s. case map_of locators s of None \<Rightarrow> Inl ParseError | Some l \<Rightarrow> Inr l),
      findByRole = (\<lambda>r base includeHidden includePresentational.
         map nodePath
           (filter (\<lambda>n. nodeRole n = r \<and> strict_prefix base (nodePath n) \<and>
                         (includeHidden \<or> \<not> nodeHidden n)) doc)),
      computeARIAAttributeValue = (\<lambda>e a.
         case find (\<lambda>n. nodePath n = e) doc of
           None \<Rightarrow> None
         | Some n \<Rightarrow> map_of (nodeAttributes n) a),
      getNameFor = (\<lambda>e.
         case find (\<lambda>n. nodePath n = e) doc of None \<Rightarrow> [] | Some n \<Rightarrow> nodeName n),
      nameMatches = (\<lambda>pattern accessibleName. pattern = accessibleName),
      buildFailureMessage = (\<lambda>locator result hiddenMatches presentationalMatches.
         if hiddenMatches \<noteq> [] then ''found only when hidden elements are included''
         else if presentationalMatches \<noteq> []
         then ''found only when presentational elements are included''
         else ''not found'')\<rparr>"

definition semanticNode :: "string \<Rightarrow> AttributeMap \<Rightarrow> string option \<Rightarrow> SemanticNode" where
  "semanticNode r attrs n = \<lparr>role = r, attributes = attrs, name = n\<rparr>"

text \<open>
  The document of the comment in \<^verbatim>\<open>findBySemanticLocator\<close>: a list \<^verbatim>\<open>a\<close> holding a list
  \<^verbatim>\<open>b\<close> (holding the item \<^verbatim>\<open>c\<close>) and the item \<^verbatim>\<open>d\<close>; beside it a hidden button.
\<close>

definition listDocument :: "documentNode list" where
  "listDocument =
     [DocumentNode [0] ''list'' [] ''a'' False,
      DocumentNode [0, 0] ''list'' [] ''b'' False,
      DocumentNode [0, 0, 0] ''listitem'' [(''checked'', ''true''), (''level'', ''2'')] ''c'' False,
      DocumentNode [0, 1] ''listitem'' [(''checked'', ''true''), (''level'', ''1'')] ''d'' False,
      DocumentNode [1] ''button'' [] ''OK'' True]"

definition listLocator :: SemanticLocator where
  "listLocator =
     \<lparr>preOuter = [semanticNode ''list'' [] None],
      postOuter = [semanticNode ''listitem'' [] None]\<rparr>"

definition buttonLocator :: SemanticLocator where
  "buttonLocator = \<lparr>preOuter = [semanticNode ''button'' [] (Some ''OK'')], postOuter = []\<rparr>"

definition listCollaborators :: collaborators where
  "listCollaborators =
     documentCollaborators listDocument
       [(''{list} outer {listitem}'', listLocator), (''{button OK}'', buttonLocator)]"

text \<open>A list \<^verbatim>\<open>a\<close> with an item \<^verbatim>\<open>x\<close> that holds a list \<^verbatim>\<open>b\<close> with an item \<^verbatim>\<open>y\<close>.\<close>

definition nestedDocument :: "documentNode list" where
  "nestedDocument =
     [DocumentNode [0] ''list'' [] ''a'' False,
      DocumentNode [0, 0] ''listitem'' [] ''x'' False,
      DocumentNode [0, 0, 0] ''list'' [] ''b'' False,
      DocumentNode [0, 0, 0, 0] ''listitem'' [] ''y'' False]"

definition nestedCollaborators :: collaborators where
  "nestedCollaborators = documentCollaborators nestedDocument []"

text \<open>Two sibling lists; the item of the second holds a button.\<close>

definition siblingDocument :: "documentNode list" where
  "siblingDocument =
     [DocumentNode [0] ''list'' [] ''p'' False,
      DocumentNode [0, 0] ''listitem'' [] ''p1'' False,
      DocumentNode [1] ''list'' [] ''q'' False,
      DocumentNode [1, 0] ''listitem'' [] ''q1'' False,
      DocumentNode [1, 0, 0] ''button'' [] ''Go'' False]"

definition siblingCollaborators :: collaborators where
  "siblingCollaborators = documentCollaborators siblingDocument []"

definition siblingLocator :: SemanticLocator where
  "siblingLocator =
     \<lparr>preOuter = [semanticNode ''list'' [] None],
      postOuter = [semanticNode ''listitem'' [] None, semanticNode ''button'' [] None,
                   semanticNode ''link'' [] None]\<rparr>"

section \<open>Properties\<close>

subsection \<open>Order and containment utilities\<close>

lemma compareNodeOrder_le: "compareNodeOrder x y \<le> 0 \<longleftrightarrow> x \<le> y"
  by (auto simp: compareNodeOrder_def)

lemma insertByCompare_insort: "insertByCompare compareNodeOrder x ys = insort x ys"
  by (induction ys) (simp_all add: compareNodeOrder_le)

lemma arraySort_sort: "arraySort compareNodeOrder xs = sort xs"
  by (induction xs) (simp_all add: arraySort_def insertByCompare_insort)

lemma set_removeDuplicates: "set (removeDuplicates xs) = set xs"
  by (induction xs rule: removeDuplicates.induct) auto

lemma distinct_removeDuplicates: "distinct (removeDuplicates xs)"
  by (induction xs rule: removeDuplicates.induct) (auto simp: set_removeDuplicates)

lemma sorted_removeDuplicates: "sorted xs \<Longrightarrow> sorted (removeDuplicates xs)"
  by (induction xs rule: removeDuplicates.induct) (auto simp: set_removeDuplicates sorted_wrt_filter)

lemma removeDuplicates_Nil: "removeDuplicates xs = [] \<longleftrightarrow> xs = []"
  by (cases xs) simp_all

lemma inDocumentOrder_sorted: "inDocumentOrder xs \<longleftrightarrow> sorted xs"
  by (induction xs rule: inDocumentOrder.induct) (auto simp: compareNodeOrder_le intro: order_trans)

lemma set_outerNodesOnly: "set (outerNodesOnly xs) \<subseteq> set xs"
  by (auto simp: outerNodesOnly_def)

lemma outerNodesOnly_no_ancestor:
  "a \<in> set (outerNodesOnly xs) \<Longrightarrow> b \<in> set (outerNodesOnly xs) \<Longrightarrow> \<not> isAncestor a b"
  by (auto simp: outerNodesOnly_def list_ex_iff)

lemma outerNodesOnly_nonempty:
  assumes "xs \<noteq> []" shows "outerNodesOnly xs \<noteq> []"
proof -
  obtain x where x: "x \<in> set xs" "\<forall>y \<in> set xs. length x \<le> length y"
    using assms
    by (metis (no_types, lifting) arg_min_list_in f_arg_min_list_f  Min_le List.finite_set finite_imageI imageI)
  have "\<not> isAncestor y x" if "y \<in> set xs" for y
    using x that by (auto simp: isAncestor_def contains_def dest!: prefix_length_less[OF strict_prefixI])
  then have "x \<in> set (outerNodesOnly xs)"
    using x by (auto simp: outerNodesOnly_def list_ex_iff)
  then show ?thesis by auto
qed

lemma sorted_wrt_outerNodesOnly: "sorted_wrt (<) xs \<Longrightarrow> sorted_wrt (<) (outerNodesOnly xs)"
  by (simp add: outerNodesOnly_def sorted_wrt_filter)

lemma subtree_order:
  fixes a b x y :: element
  assumes "a < b" "\<not> prefix a b" "prefix a x" "prefix b y"
  shows "x < y"
  using assms
proof (induction a arbitrary: b x y)
  case Nil
  then show ?case by simp
next
  case (Cons h t)
  from Cons.prems(1) obtain h' t' where b: "b = h' # t'"
    by (cases b) auto
  from Cons.prems(3) obtain x' where x: "x = h # x'" "prefix t x'"
    by (cases x) auto
  from Cons.prems(4) b obtain y' where y: "y = h' # y'" "prefix t' y'"
    by (cases y) auto
  show ?case
  proof (cases "h < h'")
    case True
    then show ?thesis by (simp add: x y)
  next
    case False
    with Cons.prems(1) b have eq: "h = h'" and lt: "t < t'" by auto
    from Cons.prems(2) b eq have "\<not> prefix t t'" by simp
    from Cons.IH[OF lt this x(2) y(2)] show ?thesis by (simp add: x y eq)
  qed
qed

lemma prefix_not_greater:
  fixes a x :: element
  shows "prefix a x \<Longrightarrow> a \<le> x"
proof (induction a arbitrary: x)
  case Nil
  then show ?case by simp
next
  case (Cons h t)
  then show ?case by (cases x) auto
qed

lemma sorted_wrt_concat_subtrees:
  fixes f :: "element \<Rightarrow> element list"
  assumes "sorted_wrt (<) bases"
    and "\<forall>a \<in> set bases. \<forall>b \<in> set bases. \<not> isAncestor a b"
    and "\<forall>b \<in> set bases. sorted_wrt (<) (f b) \<and> (\<forall>x \<in> set (f b). contains b x)"
  shows "sorted_wrt (<) (concat (map f bases))"
  using assms
proof (induction bases)
  case Nil
  then show ?case by simp
next
  case (Cons a bases)
  have "x < y" if "x \<in> set (f a)" "b \<in> set bases" "y \<in> set (f b)" for x y b
  proof -
    have "a < b" using Cons.prems(1) that(2) by simp
    moreover have "\<not> prefix a b"
      using Cons.prems(2) that(2) \<open>a < b\<close> by (auto simp: isAncestor_def contains_def)
    moreover have "prefix a x" "prefix b y"
      using Cons.prems(3) that by (auto simp: contains_def)
    ultimately show ?thesis by (rule subtree_order)
  qed
  moreover have "sorted_wrt (<) (concat (map f bases))"
    using Cons by simp
  ultimately show ?case
    using Cons.prems(3) by (auto simp: sorted_wrt_append)
qed

subsection \<open>The stages of the matcher\<close>

lemma attributeStage_cases:
  "(case attributeStage c r attrs els res of
      Inr es \<Rightarrow> es = filter (matchesAll c attrs) els \<and> (els \<noteq> [] \<longrightarrow> es \<noteq> [])
    | Inl m \<Rightarrow> filter (matchesAll c attrs) els = [])"
proof (induction attrs arbitrary: els res)
  case Nil
  then show ?case by (simp add: matchesAll_def)
next
  case (Cons a attrs)
  obtain n v where a: "a = (n, v)" by (cases a)
  let ?next = "filter (\<lambda>element. computeARIAAttributeValue c element n = Some v) els"
  have split: "filter (matchesAll c ((n, v) # attrs)) els = filter (matchesAll c attrs) ?next"
    by (auto simp: a matchesAll_def intro: filter_cong)
  show ?case
  proof (cases "?next = []")
    case True
    then show ?thesis by (simp add: a split)
  next
    case False
    with Cons.IH[of ?next "AList.update n v res"] show ?thesis
      by (auto simp: a split Let_def split: sum.splits)
  qed
qed

lemma attributeStage_Inr:
  "attributeStage c r attrs els res = Inr es \<Longrightarrow>
     es = filter (matchesAll c attrs) els \<and> (els \<noteq> [] \<longrightarrow> es \<noteq> [])"
  using attributeStage_cases[where c=c and r=r and attrs=attrs and els=els and res=res] by auto

lemma attributeStage_Inl:
  "attributeStage c r attrs els res = Inl m \<Longrightarrow> filter (matchesAll c attrs) els = []"
  using attributeStage_cases[where c=c and r=r and attrs=attrs and els=els and res=res] by auto

lemma attributeStage_closestFind:
  "attributeStage c r attrs els res = Inl m \<Longrightarrow> closestFind m = []"
  by (induction attrs arbitrary: els res) (auto simp: Let_def split: if_splits)

lemma nameStage_cases:
  "(case nameStage c node els of
      Inr es \<Rightarrow> es = filter (namePasses c node) els \<and> (els \<noteq> [] \<longrightarrow> es \<noteq> [])
    | Inl m \<Rightarrow> filter (namePasses c node) els = [] \<and> closestFind m = [])"
proof (cases "name node")
  case None
  then have "namePasses c node = (\<lambda>e. True)"
    by (simp add: namePasses_def fun_eq_iff)
  with None show ?thesis by (simp add: nameStage_def)
next
  case (Some n)
  show ?thesis
  proof (cases "n = []")
    case True
    with Some have "namePasses c node = (\<lambda>e. True)"
      by (simp add: namePasses_def fun_eq_iff)
    with Some True show ?thesis by (simp add: nameStage_def)
  next
    case False
    with Some have "namePasses c node = (\<lambda>e. nameMatches c n (getNameFor c e))"
      by (simp add: namePasses_def fun_eq_iff)
    with Some False show ?thesis by (simp add: nameStage_def Let_def)
  qed
qed

lemma nameStage_Inr:
  "nameStage c node els = Inr es \<Longrightarrow>
     es = filter (namePasses c node) els \<and> (els \<noteq> [] \<longrightarrow> es \<noteq> [])"
  using nameStage_cases[where c=c and node=node and els=els] by auto

lemma nameStage_Inl:
  "nameStage c node els = Inl m \<Longrightarrow>
     filter (namePasses c node) els = [] \<and> closestFind m = []"
  using nameStage_cases[where c=c and node=node and els=els] by auto

lemma findBySemanticNode_unfold:
  "findBySemanticNode c node base h p =
     (if roleElements c node base h p = [] then
        Inr (EmptyResults
               \<lparr>closestFind = [], elementsFound = outerNodesOnly base,
                notFound = NotFoundRole (role node), partialFind = None\<rparr>)
      else
        case attributeStage c (role node) (attributes node) (roleElements c node base h p) [] of
          Inl m \<Rightarrow> Inr (EmptyResults m)
        | Inr elements1 \<Rightarrow>
            (case nameStage c node elements1 of
               Inl m \<Rightarrow> Inr (EmptyResults m)
             | Inr elements2 \<Rightarrow>
                 if inDocumentOrder elements2 then Inr (NonEmptyResult elements2)
                 else Inl NotInDocumentOrder))"
  by (simp add: findBySemanticNode_def roleElements_def entries_def Let_def)

lemma findBySemanticNode_cases:
  "(survivors c node base h p = [] \<and>
      (\<exists>m. findBySemanticNode c node base h p = Inr (EmptyResults m))) \<or>
   (survivors c node base h p \<noteq> [] \<and>
      findBySemanticNode c node base h p =
        (if inDocumentOrder (survivors c node base h p)
         then Inr (NonEmptyResult (survivors c node base h p))
         else Inl NotInDocumentOrder))"
proof (cases "roleElements c node base h p = []")
  case True
  then show ?thesis by (simp add: findBySemanticNode_unfold survivors_def)
next
  case ne: False
  show ?thesis
  proof (cases "attributeStage c (role node) (attributes node) (roleElements c node base h p) []")
    case (Inl m)
    from attributeStage_Inl[OF this] Inl ne show ?thesis
      by (simp add: findBySemanticNode_unfold survivors_def)
  next
    case (Inr elements1)
    note e1 = attributeStage_Inr[OF this]
    show ?thesis
    proof (cases "nameStage c node elements1")
      case (Inl m)
      from nameStage_Inl[OF this] Inl Inr ne e1 show ?thesis
        by (simp add: findBySemanticNode_unfold survivors_def)
    next
      case inr2: (Inr elements2)
      from nameStage_Inr[OF this] inr2 Inr ne e1 show ?thesis
        by (auto simp add: findBySemanticNode_unfold survivors_def simp del: filter_filter)
    qed
  qed
qed

lemma findBySemanticNode_Found_iff:
  "findBySemanticNode c node base h p = Inr (NonEmptyResult es) \<longleftrightarrow>
     es = survivors c node base h p \<and> es \<noteq> [] \<and> inDocumentOrder es"
  using findBySemanticNode_cases[of c node base h p] by (auto split: if_splits)

lemma findBySemanticNode_Error_iff:
  "findBySemanticNode c node base h p = Inl e \<longleftrightarrow>
     e = NotInDocumentOrder \<and> survivors c node base h p \<noteq> [] \<and>
     \<not> inDocumentOrder (survivors c node base h p)"
  using findBySemanticNode_cases[of c node base h p] by (auto split: if_splits)

lemma findBySemanticNode_Empty_iff:
  "(\<exists>m. findBySemanticNode c node base h p = Inr (EmptyResults m)) \<longleftrightarrow>
     survivors c node base h p = []"
  using findBySemanticNode_cases[of c node base h p] by (auto split: if_splits)

lemma findBySemanticNode_closestFind:
  "findBySemanticNode c node base h p = Inr (EmptyResults m) \<Longrightarrow> closestFind m = []"
  unfolding findBySemanticNode_unfold
  by (auto split: sum.splits if_splits dest!: attributeStage_closestFind nameStage_Inl)

lemma roleElements_sorted:
  assumes "roleFinderContract c h p" "sorted_wrt (<) base"
  shows "sorted_wrt (<) (roleElements c node base h p)"
  unfolding roleElements_def
proof (rule sorted_wrt_concat_subtrees)
  show "sorted_wrt (<) (outerNodesOnly base)"
    using assms(2) by (rule sorted_wrt_outerNodesOnly)
  show "\<forall>a\<in>set (outerNodesOnly base). \<forall>b\<in>set (outerNodesOnly base). \<not> isAncestor a b"
    using outerNodesOnly_no_ancestor by blast
  show "\<forall>b\<in>set (outerNodesOnly base).
          sorted_wrt (<) (findByRole c (role node) b h p) \<and>
          (\<forall>x\<in>set (findByRole c (role node) b h p). contains b x)"
    using assms(1) by (simp add: roleFinderContract_def)
qed

lemma survivors_sorted:
  assumes "roleFinderContract c h p" "sorted_wrt (<) base"
  shows "sorted_wrt (<) (survivors c node base h p)"
  unfolding survivors_def
  by (intro sorted_wrt_filter roleElements_sorted assms)

lemma strict_sorted_inDocumentOrder: "sorted_wrt (<) xs \<Longrightarrow> inDocumentOrder xs"
  by (simp add: inDocumentOrder_sorted strict_sorted_iff)

lemma findBySemanticNode_contract:
  assumes "roleFinderContract c h p" "sorted_wrt (<) base"
  shows "findBySemanticNode c node base h p \<noteq> Inl e"
    and "findBySemanticNode c node base h p = Inr (NonEmptyResult es) \<Longrightarrow>
           es \<noteq> [] \<and> sorted_wrt (<) es"
  using survivors_sorted[OF assms, of node]
  by (auto simp: findBySemanticNode_Error_iff findBySemanticNode_Found_iff
      strict_sorted_inDocumentOrder)

subsection \<open>The segment searcher\<close>

declare findBySemanticNodesFrom.simps [simp del]

lemma nodesFrom_done:
  "\<not> i < length nodes \<Longrightarrow>
     findBySemanticNodesFrom c nodes i base h p = Inr (NonEmptyResult base)"
  by (simp add: findBySemanticNodesFrom.simps[of c nodes i])

lemma nodesFrom_error:
  "i < length nodes \<Longrightarrow> findBySemanticNode c (nodes ! i) base h p = Inl e \<Longrightarrow>
     findBySemanticNodesFrom c nodes i base h p = Inl e"
  by (simp add: findBySemanticNodesFrom.simps[of c nodes i])

lemma nodesFrom_fail:
  "i < length nodes \<Longrightarrow> findBySemanticNode c (nodes ! i) base h p = Inr (EmptyResults m) \<Longrightarrow>
     findBySemanticNodesFrom c nodes i base h p =
       Inr (EmptyResults \<lparr>closestFind = take i nodes, elementsFound = elementsFound m,
                           notFound = notFound m, partialFind = partialFind m\<rparr>)"
  by (simp add: findBySemanticNodesFrom.simps[of c nodes i])

lemma nodesFrom_step:
  "i < length nodes \<Longrightarrow> findBySemanticNode c (nodes ! i) base h p = Inr (NonEmptyResult f) \<Longrightarrow>
     findBySemanticNodesFrom c nodes i base h p = findBySemanticNodesFrom c nodes (Suc i) f h p"
  by (simp add: findBySemanticNodesFrom.simps[of c nodes i])

lemma nodesFrom_Found_nonempty:
  "findBySemanticNodesFrom c nodes i base h p = Inr (NonEmptyResult es) \<Longrightarrow>
     base \<noteq> [] \<or> i < length nodes \<Longrightarrow> es \<noteq> []"
proof (induction c nodes i base h p rule: findBySemanticNodesFrom.induct)
  case (1 c nodes i searchBase h p)
  show ?case
  proof (cases "i < length nodes")
    case False
    with "1.prems" show ?thesis by (simp add: nodesFrom_done)
  next
    case True
    show ?thesis
    proof (cases "findBySemanticNode c (nodes ! i) searchBase h p")
      case (Inl e)
      with True "1.prems"(1) show ?thesis by (simp add: nodesFrom_error)
    next
      case (Inr r)
      show ?thesis
      proof (cases r)
        case (EmptyResults m)
        with True Inr "1.prems"(1) show ?thesis by (simp add: nodesFrom_fail)
      next
        case (NonEmptyResult f)
        with Inr have f: "findBySemanticNode c (nodes ! i) searchBase h p = Inr (NonEmptyResult f)"
          by simp
        then have "f \<noteq> []" by (auto simp add: findBySemanticNode_Found_iff)
        moreover have "findBySemanticNodesFrom c nodes (Suc i) f h p = Inr (NonEmptyResult es)"
          using "1.prems"(1) nodesFrom_step[OF True f] by simp
        ultimately show ?thesis
          using "1.IH"[OF True Inr NonEmptyResult] by simp
      qed
    qed
  qed
qed

lemma nodesFrom_contract:
  assumes "roleFinderContract c h p"
  shows "sorted_wrt (<) base \<Longrightarrow>
     findBySemanticNodesFrom c nodes i base h p \<noteq> Inl e \<and>
     (findBySemanticNodesFrom c nodes i base h p = Inr (NonEmptyResult es) \<longrightarrow>
        sorted_wrt (<) es)"
  using assms
proof (induction c nodes i base h p rule: findBySemanticNodesFrom.induct)
  case (1 c nodes i searchBase h p)
  note contract = "1.prems"(2) and srt = "1.prems"(1)
  show ?case
  proof (cases "i < length nodes")
    case False
    with srt show ?thesis by (auto simp add: nodesFrom_done)
  next
    case True
    show ?thesis
    proof (cases "findBySemanticNode c (nodes ! i) searchBase h p")
      case (Inl e')
      with findBySemanticNode_contract(1)[OF contract srt] show ?thesis by simp
    next
      case (Inr r)
      show ?thesis
      proof (cases r)
        case (EmptyResults m)
        with True Inr show ?thesis by (simp add: nodesFrom_fail)
      next
        case (NonEmptyResult f)
        with Inr have f: "findBySemanticNode c (nodes ! i) searchBase h p = Inr (NonEmptyResult f)"
          by simp
        from findBySemanticNode_contract(2)[OF contract srt f] have "sorted_wrt (<) f" by simp
        from "1.IH"[OF True Inr NonEmptyResult this contract] show ?thesis
          by (simp add: nodesFrom_step[OF True f])
      qed
    qed
  qed
qed

lemma nodesFrom_closestFind:
  "findBySemanticNodesFrom c nodes i base h p = Inr (EmptyResults m) \<Longrightarrow>
     \<exists>j. i \<le> j \<and> j < length nodes \<and> closestFind m = take j nodes"
proof (induction c nodes i base h p rule: findBySemanticNodesFrom.induct)
  case (1 c nodes i searchBase h p)
  show ?case
  proof (cases "i < length nodes")
    case False
    with "1.prems" show ?thesis by (simp add: nodesFrom_done)
  next
    case True
    show ?thesis
    proof (cases "findBySemanticNode c (nodes ! i) searchBase h p")
      case (Inl e)
      with True "1.prems"(1) show ?thesis by (simp add: nodesFrom_error)
    next
      case (Inr r)
      show ?thesis
      proof (cases r)
        case (EmptyResults m')
        with True Inr "1.prems"(1) show ?thesis by (auto simp add: nodesFrom_fail)
      next
        case (NonEmptyResult f)
        with Inr have f: "findBySemanticNode c (nodes ! i) searchBase h p = Inr (NonEmptyResult f)"
          by simp
        have "findBySemanticNodesFrom c nodes (Suc i) f h p = Inr (EmptyResults m)"
          using "1.prems"(1) nodesFrom_step[OF True f] by simp
        from "1.IH"[OF True Inr NonEmptyResult this] show ?thesis
          using Suc_leD by blast
      qed
    qed
  qed
qed

subsection \<open>The combiner\<close>

lemma mapResults_Inr_iff: "mapResults f xs = Inr ys \<longleftrightarrow> map f xs = map Inr ys"
proof (induction xs arbitrary: ys)
  case Nil
  then show ?case by auto
next
  case (Cons x xs)
  show ?case
  proof (cases "f x")
    case (Inl e)
    then show ?thesis by (cases ys) auto
  next
    case (Inr y)
    show ?thesis
    proof (cases "mapResults f xs")
      case (Inl e)
      with Cons.IH have "\<And>zs. map f xs \<noteq> map Inr zs" by simp
      with Inl Inr show ?thesis by (cases ys) auto
    next
      case inr: (Inr zs)
      with Cons.IH[of zs] have "map f xs = map Inr zs" by simp
      with inr Inr show ?thesis by (cases ys) (auto simp: inj_map_eq_map[OF inj_Inr])
    qed
  qed
qed

lemma mapResults_Inl: "mapResults f xs = Inl e \<Longrightarrow> \<exists>x \<in> set xs. f x = Inl e"
  by (induction xs) (auto split: sum.splits)

lemma mapResults_total:
  "(\<And>x e. x \<in> set xs \<Longrightarrow> f x \<noteq> Inl e) \<Longrightarrow> \<exists>ys. mapResults f xs = Inr ys"
  by (cases "mapResults f xs") (auto dest: mapResults_Inl)

lemma mapResults_nth:
  "mapResults f xs = Inr ys \<Longrightarrow> length ys = length xs \<and> (\<forall>k<length xs. f (xs ! k) = Inr (ys ! k))"
  unfolding mapResults_Inr_iff
  by (metis length_map nth_map)

lemma mapResults_member:
  assumes "mapResults f xs = Inr ys" "y \<in> set ys"
  shows "\<exists>x \<in> set xs. f x = Inr y"
proof -
  from assms(2) obtain k where "k < length ys" "ys ! k = y" by (auto simp: in_set_conv_nth)
  with mapResults_nth[OF assms(1)] show ?thesis by (metis nth_mem)
qed

lemma inj_EmptyResults: "inj EmptyResults"
  by (simp add: inj_def)

lemma asEmptyResultsMetadata_Inr_iff:
  "asEmptyResultsMetadata rs = Inr ms \<longleftrightarrow> rs = map EmptyResults ms"
proof (induction rs arbitrary: ms rule: asEmptyResultsMetadata.induct)
  case 1
  then show ?case by auto
next
  case (2 f rs)
  then show ?case by (cases ms) auto
next
  case (3 m rs)
  show ?case
  proof (cases "asEmptyResultsMetadata rs")
    case (Inl e)
    with "3.IH" have "\<And>zs. rs \<noteq> map EmptyResults zs" by simp
    with Inl show ?thesis by (cases ms) auto
  next
    case (Inr zs)
    with "3.IH"[of zs] have "rs = map EmptyResults zs" by simp
    with Inr show ?thesis by (cases ms) (auto simp: inj_map_eq_map[OF inj_EmptyResults])
  qed
qed

lemma asEmptyResultsMetadata_Inl:
  "asEmptyResultsMetadata rs = Inl e \<Longrightarrow> \<exists>r \<in> set rs. isNonEmptyResult r"
  by (induction rs rule: asEmptyResultsMetadata.induct) (auto split: sum.splits)

lemma mergeFound_Nil_iff:
  "mergeFound results = [] \<longleftrightarrow>
     (\<forall>r \<in> set results. isNonEmptyResult r \<longrightarrow> found r = [])"
  using outerNodesOnly_nonempty by (auto simp: mergeFound_def outerNodesOnly_def)

lemma set_mergeFound:
  "set (mergeFound results) =
     (\<Union>r \<in> {r \<in> set results. isNonEmptyResult r}. set (outerNodesOnly (found r)))"
  by (auto simp: mergeFound_def)

lemma mostSpecific_split:
  "\<exists>before after.
     best # ms = before @ mostSpecific best ms # after \<and>
     (\<forall>x \<in> set before. length (closestFind x) < length (closestFind (mostSpecific best ms))) \<and>
     (\<forall>x \<in> set after. length (closestFind x) \<le> length (closestFind (mostSpecific best ms)))"
proof (induction ms arbitrary: best)
  case Nil
  show ?case by (intro exI[of _ "[]"]) simp
next
  case (Cons m ms)
  show ?case
  proof (cases "length (closestFind best) < length (closestFind m)")
    case True
    from Cons.IH[of m] obtain b a where
      s: "m # ms = b @ mostSpecific m ms # a"
      and lt: "\<forall>x \<in> set b. length (closestFind x) < length (closestFind (mostSpecific m ms))"
      and le: "\<forall>x \<in> set a. length (closestFind x) \<le> length (closestFind (mostSpecific m ms))"
      by blast
    have "length (closestFind m) \<le> length (closestFind (mostSpecific m ms))"
    proof (cases b)
      case Nil
      with s have "mostSpecific m ms = m" by (metis append_Nil list.inject)
      then show ?thesis by simp
    next
      case (Cons b0 b')
      with s have "m \<in> set b" by simp
      with lt show ?thesis by fastforce
    qed
    with True have "length (closestFind best) < length (closestFind (mostSpecific m ms))"
      by simp
    moreover have r: "mostSpecific best (m # ms) = mostSpecific m ms"
      using True by simp
    ultimately have
      "best # m # ms = (best # b) @ mostSpecific best (m # ms) # a \<and>
       (\<forall>x \<in> set (best # b).
          length (closestFind x) < length (closestFind (mostSpecific best (m # ms)))) \<and>
       (\<forall>x \<in> set a.
          length (closestFind x) \<le> length (closestFind (mostSpecific best (m # ms))))"
      unfolding r using s lt le by simp
    then show ?thesis by blast
  next
    case False
    from Cons.IH[of best] obtain b a where
      s: "best # ms = b @ mostSpecific best ms # a"
      and lt: "\<forall>x \<in> set b. length (closestFind x) < length (closestFind (mostSpecific best ms))"
      and le: "\<forall>x \<in> set a. length (closestFind x) \<le> length (closestFind (mostSpecific best ms))"
      by blast
    show ?thesis
    proof (cases b)
      case Nil
      with s have "mostSpecific best ms = best" "a = ms" by (metis append_Nil list.inject)+
      with False le have
        "best # m # ms = [] @ mostSpecific best (m # ms) # (m # ms) \<and>
         (\<forall>x \<in> set [].
            length (closestFind x) < length (closestFind (mostSpecific best (m # ms)))) \<and>
         (\<forall>x \<in> set (m # ms).
            length (closestFind x) \<le> length (closestFind (mostSpecific best (m # ms))))"
        by simp
      then show ?thesis by blast
    next
      case (Cons b0 b')
      with s have b0: "b0 = best" "ms = b' @ mostSpecific best ms # a"
        by (metis append_Cons list.inject)+
      with lt Cons have "length (closestFind best) < length (closestFind (mostSpecific best ms))"
        by simp
      with False have "length (closestFind m) < length (closestFind (mostSpecific best ms))"
        by simp
      moreover have r: "mostSpecific best (m # ms) = mostSpecific best ms"
        using False by simp
      ultimately have
        "best # m # ms = (best # m # b') @ mostSpecific best (m # ms) # a \<and>
         (\<forall>x \<in> set (best # m # b').
            length (closestFind x) < length (closestFind (mostSpecific best (m # ms)))) \<and>
         (\<forall>x \<in> set a.
            length (closestFind x) \<le> length (closestFind (mostSpecific best (m # ms))))"
        unfolding r using b0 lt le Cons by auto
      then show ?thesis by blast
    qed
  qed
qed

lemma combineMostSpecific_member:
  "combineMostSpecific ms = Inr nf \<Longrightarrow> nf \<in> set ms"
proof (cases ms)
  case Nil
  assume "combineMostSpecific ms = Inr nf"
  with Nil show ?thesis by simp
next
  case (Cons m ms')
  assume "combineMostSpecific ms = Inr nf"
  with Cons have "nf = mostSpecific m ms'" by simp
  with mostSpecific_split[of m ms'] Cons show ?thesis
    by (metis in_set_conv_decomp)
qed

lemma locator_pre_error:
  "findBySemanticNodes c (preOuter l) [root] h p = Inl e \<Longrightarrow>
     findBySemanticLocator c l root h p = Inl e"
  by (simp add: findBySemanticLocator_def)

lemma locator_pre_empty:
  "findBySemanticNodes c (preOuter l) [root] h p = Inr (EmptyResults m) \<Longrightarrow>
     findBySemanticLocator c l root h p = Inr (EmptyResults m)"
  by (simp add: findBySemanticLocator_def)

lemma locator_no_post:
  "findBySemanticNodes c (preOuter l) [root] h p = Inr (NonEmptyResult bases) \<Longrightarrow>
     postOuter l = [] \<Longrightarrow>
     findBySemanticLocator c l root h p = Inr (NonEmptyResult bases)"
  by (simp add: findBySemanticLocator_def)

lemma locator_post_error:
  "findBySemanticNodes c (preOuter l) [root] h p = Inr (NonEmptyResult bases) \<Longrightarrow>
     postOuter l \<noteq> [] \<Longrightarrow>
     mapResults (\<lambda>base. findBySemanticNodes c (postOuter l) [base] h p) bases = Inl e \<Longrightarrow>
     findBySemanticLocator c l root h p = Inl e"
  by (simp add: findBySemanticLocator_def)

lemma locator_merge:
  "findBySemanticNodes c (preOuter l) [root] h p = Inr (NonEmptyResult bases) \<Longrightarrow>
     postOuter l \<noteq> [] \<Longrightarrow>
     mapResults (\<lambda>base. findBySemanticNodes c (postOuter l) [base] h p) bases = Inr results \<Longrightarrow>
     mergeFound results \<noteq> [] \<Longrightarrow>
     findBySemanticLocator c l root h p =
       Inr (NonEmptyResult (removeDuplicates (arraySort compareNodeOrder (mergeFound results))))"
  by (simp add: findBySemanticLocator_def)

lemma locator_diagnostic:
  "findBySemanticNodes c (preOuter l) [root] h p = Inr (NonEmptyResult bases) \<Longrightarrow>
     postOuter l \<noteq> [] \<Longrightarrow>
     mapResults (\<lambda>base. findBySemanticNodes c (postOuter l) [base] h p) bases = Inr results \<Longrightarrow>
     mergeFound results = [] \<Longrightarrow>
     findBySemanticLocator c l root h p =
       (case asEmptyResultsMetadata results of
          Inl e \<Rightarrow> Inl e
        | Inr metas \<Rightarrow>
            (case combineMostSpecific metas of
               Inl e \<Rightarrow> Inl e
             | Inr noneFound \<Rightarrow>
                 Inr (EmptyResults
                        \<lparr>closestFind = preOuter l @ closestFind noneFound,
                         elementsFound = elementsFound noneFound,
                         notFound = notFound noneFound,
                         partialFind = partialFind noneFound\<rparr>)))"
  by (simp add: findBySemanticLocator_def)

lemma nodes_Found_nonempty:
  "findBySemanticNodes c nodes [base] h p = Inr (NonEmptyResult es) \<Longrightarrow> es \<noteq> []"
  using nodesFrom_Found_nonempty[of c nodes 0 "[base]" h p es]
  by (simp add: findBySemanticNodes_def)

lemma per_base_found_nonempty:
  assumes "mapResults (\<lambda>base. findBySemanticNodes c nodes [base] h p) bases = Inr results"
    and "r \<in> set results" "isNonEmptyResult r"
  shows "found r \<noteq> []"
proof -
  from mapResults_member[OF assms(1,2)] obtain b where
    "findBySemanticNodes c nodes [b] h p = Inr r" by blast
  with assms(3) show ?thesis by (cases r) (auto dest: nodes_Found_nonempty)
qed

lemma mergeFound_nonempty:
  assumes "mapResults (\<lambda>base. findBySemanticNodes c nodes [base] h p) bases = Inr results"
    and "r \<in> set results" "isNonEmptyResult r"
  shows "mergeFound results \<noteq> []"
  using per_base_found_nonempty[OF assms] assms(2,3) by (auto simp: mergeFound_Nil_iff)

lemma sorted_merged:
  "sorted (removeDuplicates (arraySort compareNodeOrder xs)) \<and>
   distinct (removeDuplicates (arraySort compareNodeOrder xs)) \<and>
   set (removeDuplicates (arraySort compareNodeOrder xs)) = set xs"
  by (simp add: arraySort_sort sorted_removeDuplicates distinct_removeDuplicates
      set_removeDuplicates)

subsection \<open>Auxiliary facts for the claims\<close>

lemma outermostFiltered_outerNodesOnly:
  "outermostFiltered nodes \<Longrightarrow> outerNodesOnly nodes = nodes"
  by (simp add: outermostFiltered_def outerNodesOnly_def list_all_iff)

lemma nodesFrom_chain:
  assumes "length bs = Suc i" "i < length nodes"
    and "\<forall>j<i. findBySemanticNode c (nodes ! j) (bs ! j) h p = Inr (NonEmptyResult (bs ! Suc j))"
    and "findBySemanticNode c (nodes ! i) (bs ! i) h p = Inr (EmptyResults failure)"
  shows "k \<le> i \<Longrightarrow>
     findBySemanticNodesFrom c nodes k (bs ! k) h p =
       Inr (EmptyResults \<lparr>closestFind = take i nodes, elementsFound = elementsFound failure,
                           notFound = notFound failure, partialFind = partialFind failure\<rparr>)"
proof (induction "i - k" arbitrary: k)
  case 0
  then have "k = i" by simp
  with assms(2,4) show ?case by (simp add: nodesFrom_fail)
next
  case (Suc d)
  then have k: "k < i" "Suc k \<le> i" "d = i - Suc k" by simp_all
  from assms(3) k(1) have
    "findBySemanticNode c (nodes ! k) (bs ! k) h p = Inr (NonEmptyResult (bs ! Suc k))"
    by simp
  moreover have "k < length nodes" using k(1) assms(2) by simp
  ultimately have "findBySemanticNodesFrom c nodes k (bs ! k) h p =
      findBySemanticNodesFrom c nodes (Suc k) (bs ! Suc k) h p"
    by (simp add: nodesFrom_step)
  with Suc.hyps(1)[OF k(3) k(2)] show ?case by simp
qed

lemma attributeStage_failure:
  assumes "distinct (map fst (pre @ (n, v) # post))"
    and "filter (matchesAll c pre) els \<noteq> []"
    and "filter (\<lambda>e. computeARIAAttributeValue c e n = Some v) (filter (matchesAll c pre) els) = []"
    and "distinct (map fst (res @ pre))"
  shows "attributeStage c r (pre @ (n, v) # post) els res =
           Inl \<lparr>closestFind = [], elementsFound = filter (matchesAll c pre) els,
                notFound = NotFoundAttribute n v,
                partialFind = Some \<lparr>partialRole = r, partialAttributes = res @ pre\<rparr>\<rparr>"
  using assms
proof (induction pre arbitrary: els res)
  case Nil
  then show ?case by (simp add: matchesAll_def)
next
  case (Cons a pre)
  obtain n' v' where a: "a = (n', v')" by (cases a)
  let ?next = "filter (\<lambda>element. computeARIAAttributeValue c element n' = Some v') els"
  have split: "filter (matchesAll c ((n', v') # pre)) els = filter (matchesAll c pre) ?next"
    by (auto simp: matchesAll_def intro: filter_cong)
  have ne: "?next \<noteq> []"
    using Cons.prems(2) unfolding a split by (auto simp del: filter_filter)
  have upd: "AList.update n' v' res = res @ [(n', v')]"
    using Cons.prems(4) unfolding a
    by (induction res) auto
  have "attributeStage c r (pre @ (n, v) # post) ?next (res @ [(n', v')]) =
          Inl \<lparr>closestFind = [], elementsFound = filter (matchesAll c pre) ?next,
                notFound = NotFoundAttribute n v,
                partialFind = Some \<lparr>partialRole = r, partialAttributes = (res @ [(n', v')]) @ pre\<rparr>\<rparr>"
  proof (rule Cons.IH)
    show "distinct (map fst (pre @ (n, v) # post))" using Cons.prems(1) by simp
    show "filter (matchesAll c pre) ?next \<noteq> []" using Cons.prems(2) unfolding a split .
    show "filter (\<lambda>e. computeARIAAttributeValue c e n = Some v) (filter (matchesAll c pre) ?next) = []"
      using Cons.prems(3) unfolding a split .
    show "distinct (map fst ((res @ [(n', v')]) @ pre))" using Cons.prems(4) by (simp add: a)
  qed
  then show ?case
    unfolding a split using ne by (simp add: upd Let_def)
qed

lemma per_base_closestFind:
  assumes "mapResults (\<lambda>base. findBySemanticNodes c nodes [base] h p) bases = Inr results"
    and "EmptyResults m \<in> set results"
  shows "\<exists>j<length nodes. closestFind m = take j nodes"
proof -
  from mapResults_member[OF assms] obtain b where
    "findBySemanticNodes c nodes [b] h p = Inr (EmptyResults m)" by blast
  then show ?thesis
    using nodesFrom_closestFind[of c nodes 0 "[b]" h p m]
    by (auto simp: findBySemanticNodes_def)
qed

lemma locator_closestFind:
  assumes "findBySemanticLocator c l root h p = Inr (EmptyResults m)"
  shows "length (closestFind m) < length (preOuter l) + length (postOuter l)"
proof (cases "findBySemanticNodes c (preOuter l) [root] h p")
  case (Inl e)
  with assms show ?thesis by (simp add: locator_pre_error)
next
  case (Inr r)
  show ?thesis
  proof (cases r)
    case (EmptyResults m')
    with Inr assms have "findBySemanticNodes c (preOuter l) [root] h p = Inr (EmptyResults m)"
      by (simp add: locator_pre_empty)
    then show ?thesis
      using nodesFrom_closestFind[of c "preOuter l" 0 "[root]" h p m]
      by (auto simp: findBySemanticNodes_def)
  next
    case (NonEmptyResult bases)
    with Inr have pre: "findBySemanticNodes c (preOuter l) [root] h p = Inr (NonEmptyResult bases)"
      by simp
    show ?thesis
    proof (cases "postOuter l = []")
      case True
      with pre assms show ?thesis by (simp add: locator_no_post)
    next
      case post: False
      show ?thesis
      proof (cases "mapResults (\<lambda>base. findBySemanticNodes c (postOuter l) [base] h p) bases")
        case (Inl e)
        with pre post assms show ?thesis by (simp add: locator_post_error)
      next
        case res: (Inr results)
        show ?thesis
        proof (cases "mergeFound results = []")
          case False
          with pre post res assms show ?thesis by (simp add: locator_merge)
        next
          case True
          from assms locator_diagnostic[OF pre post res True] obtain metas nf where
            metas: "asEmptyResultsMetadata results = Inr metas"
            and nf: "combineMostSpecific metas = Inr nf"
            and m: "closestFind m = preOuter l @ closestFind nf"
            by (auto split: sum.splits)
          from combineMostSpecific_member[OF nf] metas have "EmptyResults nf \<in> set results"
            by (auto simp: asEmptyResultsMetadata_Inr_iff)
          from per_base_closestFind[OF res this] m show ?thesis by auto
        qed
      qed
    qed
  qed
qed

lemma first_predicate_failure:
  assumes "preOuter l @ postOuter l \<noteq> []"
    and "findBySemanticNode c (hd (preOuter l @ postOuter l)) [root] h p = Inr (EmptyResults m0)"
  shows "\<exists>m. findBySemanticLocator c l root h p = Inr (EmptyResults m) \<and> closestFind m = []"
proof (cases "preOuter l = []")
  case False
  then have "hd (preOuter l @ postOuter l) = preOuter l ! 0"
    by (cases "preOuter l") simp_all
  with assms(2) have "findBySemanticNode c (preOuter l ! 0) [root] h p = Inr (EmptyResults m0)"
    by simp
  with False have "findBySemanticNodes c (preOuter l) [root] h p =
      Inr (EmptyResults \<lparr>closestFind = take 0 (preOuter l), elementsFound = elementsFound m0,
                          notFound = notFound m0, partialFind = partialFind m0\<rparr>)"
    unfolding findBySemanticNodes_def by (intro nodesFrom_fail) simp_all
  from locator_pre_empty[OF this] show ?thesis by simp
next
  case True
  with assms(1) have post: "postOuter l \<noteq> []" by simp
  from True have pre: "findBySemanticNodes c (preOuter l) [root] h p = Inr (NonEmptyResult [root])"
    by (simp add: findBySemanticNodes_def nodesFrom_done)
  from True post have "hd (preOuter l @ postOuter l) = postOuter l ! 0"
    by (cases "postOuter l") simp_all
  with assms(2)
  have "findBySemanticNode c (postOuter l ! 0) [root] h p = Inr (EmptyResults m0)"
    by simp
  with post have one: "findBySemanticNodes c (postOuter l) [root] h p =
      Inr (EmptyResults \<lparr>closestFind = take 0 (postOuter l), elementsFound = elementsFound m0,
                          notFound = notFound m0, partialFind = partialFind m0\<rparr>)"
    unfolding findBySemanticNodes_def by (intro nodesFrom_fail) simp_all
  let ?m = "\<lparr>closestFind = [], elementsFound = elementsFound m0,
             notFound = notFound m0, partialFind = partialFind m0\<rparr>"
  from one have res: "mapResults (\<lambda>base. findBySemanticNodes c (postOuter l) [base] h p) [root] =
      Inr [EmptyResults ?m]"
    by simp
  have "mergeFound [EmptyResults ?m] = []" by (simp add: mergeFound_def)
  from locator_diagnostic[OF pre post res this] True show ?thesis by simp
qed

lemma nodes_contract:
  assumes "roleFinderContract c h p"
  shows "findBySemanticNodes c nodes [b] h p \<noteq> Inl e"
    and "findBySemanticNodes c nodes [b] h p = Inr (NonEmptyResult es) \<Longrightarrow> sorted_wrt (<) es"
  using nodesFrom_contract[OF assms, of "[b]" nodes 0 e es]
  by (simp_all add: findBySemanticNodes_def)

lemma locator_contract_no_error:
  assumes "roleFinderContract c h p"
  shows "findBySemanticLocator c l root h p \<noteq> Inl e"
proof (cases "findBySemanticNodes c (preOuter l) [root] h p")
  case (Inl e')
  with nodes_contract(1)[OF assms] show ?thesis by blast
next
  case (Inr r)
  show ?thesis
  proof (cases r)
    case (EmptyResults m)
    with Inr show ?thesis by (simp add: locator_pre_empty)
  next
    case (NonEmptyResult bases)
    with Inr have pre: "findBySemanticNodes c (preOuter l) [root] h p = Inr (NonEmptyResult bases)"
      by simp
    show ?thesis
    proof (cases "postOuter l = []")
      case True
      with pre show ?thesis by (simp add: locator_no_post)
    next
      case post: False
      obtain results where
        res: "mapResults (\<lambda>base. findBySemanticNodes c (postOuter l) [base] h p) bases = Inr results"
        using mapResults_total[of bases "\<lambda>base. findBySemanticNodes c (postOuter l) [base] h p"]
          nodes_contract(1)[OF assms] by blast
      show ?thesis
      proof (cases "mergeFound results = []")
        case False
        with pre post res show ?thesis by (simp add: locator_merge)
      next
        case True
        have "asEmptyResultsMetadata results \<noteq> Inl e'" for e'
          using asEmptyResultsMetadata_Inl[of results e'] mergeFound_nonempty[OF res] True
          by blast
        then obtain metas where metas: "asEmptyResultsMetadata results = Inr metas"
          by (cases "asEmptyResultsMetadata results") auto
        from pre have "bases \<noteq> []" by (rule nodes_Found_nonempty)
        with mapResults_nth[OF res] have "results \<noteq> []" by auto
        with metas have "metas \<noteq> []" by (auto simp: asEmptyResultsMetadata_Inr_iff)
        then obtain m ms where "metas = m # ms" by (cases metas) auto
        with locator_diagnostic[OF pre post res True] metas show ?thesis by simp
      qed
    qed
  qed
qed

lemma matchesAll_set: "set attrs = set attrs' \<Longrightarrow> matchesAll c attrs = matchesAll c attrs'"
  by (auto simp: matchesAll_def list_all_iff fun_eq_iff)

lemma survivors_attribute_order:
  assumes "mset attrs' = mset (attributes node)"
  shows "survivors c (node\<lparr>attributes := attrs'\<rparr>) base h p = survivors c node base h p"
proof -
  from assms have "set attrs' = set (attributes node)" by (rule mset_eq_setD)
  then have "matchesAll c attrs' = matchesAll c (attributes node)" by (rule matchesAll_set)
  moreover have "namePasses c (node\<lparr>attributes := attrs'\<rparr>) = namePasses c node"
    by (simp add: namePasses_def fun_eq_iff)
  ultimately show ?thesis
    by (simp add: survivors_def roleElements_def)
qed

subsection \<open>The example documents\<close>

lemma documentCollaborators_contract:
  assumes "sorted_wrt (<) (map nodePath doc)"
  shows "roleFinderContract (documentCollaborators doc locators) h p"
proof -
  have "sorted_wrt (<) (map nodePath (filter P doc))" for P
    using assms by (simp add: sorted_wrt_map sorted_wrt_filter)
  then show ?thesis
    by (auto simp: roleFinderContract_def documentCollaborators_def contains_def)
qed

lemma listCollaborators_contract: "roleFinderContract listCollaborators h p"
  unfolding listCollaborators_def
  by (rule documentCollaborators_contract) (simp add: listDocument_def)

lemma siblingCollaborators_contract: "roleFinderContract siblingCollaborators h p"
  unfolding siblingCollaborators_def
  by (rule documentCollaborators_contract) (simp add: siblingDocument_def)

section \<open>The claims\<close>

text \<open>
  Claim C1. When the role finder keeps its contract (per base, results in document order
  and inside the base's subtree), every Found result of \<^verbatim>\<open>findBySemanticLocator\<close> is
  non-empty, has no element twice and is sorted by document order, whatever the locator
  and the root, and however many overlapping bases found the same element.
\<close>

theorem found_nonempty_distinct_sorted:
  assumes "roleFinderContract c h p"
    and "findBySemanticLocator c l root h p = Inr (NonEmptyResult es)"
  shows "es \<noteq> [] \<and> distinct es \<and> sorted es \<and> inDocumentOrder es"
proof (cases "findBySemanticNodes c (preOuter l) [root] h p")
  case (Inl e)
  with assms(2) show ?thesis by (simp add: locator_pre_error)
next
  case (Inr r)
  show ?thesis
  proof (cases r)
    case (EmptyResults m)
    with Inr assms(2) show ?thesis by (simp add: locator_pre_empty)
  next
    case (NonEmptyResult bases)
    with Inr have pre: "findBySemanticNodes c (preOuter l) [root] h p = Inr (NonEmptyResult bases)"
      by simp
    show ?thesis
    proof (cases "postOuter l = []")
      case True
      with pre assms(2) have "bases = es" by (simp add: locator_no_post)
      with pre nodes_contract(2)[OF assms(1)] nodes_Found_nonempty
      have "es \<noteq> []" "sorted_wrt (<) es" by blast+
      then show ?thesis
        by (simp add: strict_sorted_iff inDocumentOrder_sorted)
    next
      case post: False
      show ?thesis
      proof (cases "mapResults (\<lambda>base. findBySemanticNodes c (postOuter l) [base] h p) bases")
        case (Inl e)
        with pre post assms(2) show ?thesis by (simp add: locator_post_error)
      next
        case res: (Inr results)
        show ?thesis
        proof (cases "mergeFound results = []")
          case True
          with locator_diagnostic[OF pre post res True] assms(2) show ?thesis
            by (auto split: sum.splits)
        next
          case False
          with locator_merge[OF pre post res False] assms(2)
          have "es = removeDuplicates (arraySort compareNodeOrder (mergeFound results))"
            by simp
          with False sorted_merged[of "mergeFound results"] show ?thesis
            by (auto simp: inDocumentOrder_sorted)
        qed
      qed
    qed
  qed
qed

text \<open>
  The document of the source's comment: the bases \<^verbatim>\<open>a\<close> and \<^verbatim>\<open>b\<close> both find \<^verbatim>\<open>c\<close>, and
  the result is \<^verbatim>\<open>[c, d]\<close>.
\<close>

theorem found_nonempty_distinct_sorted_witness:
  "roleFinderContract listCollaborators False False \<and>
   findBySemanticLocator listCollaborators listLocator [] False False =
     Inr (NonEmptyResult [[0, 0, 0], [0, 1]]) \<and>
   [[0, 0, 0], [0, 1 :: nat]] \<noteq> [] \<and> distinct [[0, 0, 0], [0, 1 :: nat]] \<and>
   sorted [[0, 0, 0], [0, 1 :: nat]] \<and> inDocumentOrder [[0, 0, 0], [0, 1]]"
proof -
  have run: "findBySemanticLocator listCollaborators listLocator [] False False =
      Inr (NonEmptyResult [[0, 0, 0], [0, 1]])"
    by code_simp
  from found_nonempty_distinct_sorted[OF listCollaborators_contract run]
    listCollaborators_contract run
  show ?thesis by blast
qed

text \<open>
  Claim C2. For a locator that parses and has zero matches, \<^verbatim>\<open>findElementsBySemanticLocator\<close>
  returns the empty sequence without throwing, and \<^verbatim>\<open>findElementBySemanticLocator\<close> makes
  exactly two more passes, the first with hidden elements included and the second with
  presentational elements included, and then throws \<^verbatim>\<open>NoSuchElementError\<close>; the matches
  of the two passes go into the failure message and nowhere else. The role finder is
  taken to keep its contract in the two extra passes, so that the order assertion of the
  matcher does not throw there.
\<close>

theorem zero_matches_public_api:
  assumes "roleFinderContract c True False" and "roleFinderContract c False True"
    and "parse c locator = Inr parsed"
    and "findBySemanticLocator c parsed root False False = Inr (EmptyResults result)"
  shows "findElementsBySemanticLocator c locator root = Inr [] \<and>
         (\<exists>hiddenResult presentationalResult.
            findBySemanticLocator c parsed root True False = Inr hiddenResult \<and>
            findBySemanticLocator c parsed root False True = Inr presentationalResult \<and>
            findElementBySemanticLocator c locator root =
              (Inl (NoSuchElementError
                      (buildFailureMessage c parsed result (matchesOf hiddenResult)
                         (matchesOf presentationalResult))),
               [(False, False), (True, False), (False, True)]))"
proof -
  obtain hr where hr: "findBySemanticLocator c parsed root True False = Inr hr"
    using locator_contract_no_error[OF assms(1), of parsed root]
    by (cases "findBySemanticLocator c parsed root True False") auto
  obtain pr where pr: "findBySemanticLocator c parsed root False True = Inr pr"
    using locator_contract_no_error[OF assms(2), of parsed root]
    by (cases "findBySemanticLocator c parsed root False True") auto
  have "findElementsBySemanticLocator c locator root = Inr []"
    using assms(3,4) by (simp add: findElementsBySemanticLocator_def)
  moreover have "findElementBySemanticLocator c locator root =
      (Inl (NoSuchElementError (buildFailureMessage c parsed result (matchesOf hr) (matchesOf pr))),
       [(False, False), (True, False), (False, True)])"
    using assms(3,4) hr pr by (simp add: findElementBySemanticLocator_def)
  ultimately show ?thesis using hr pr by blast
qed

text \<open>
  A hidden button: not found by default, found when hidden elements are included.
\<close>

theorem zero_matches_public_api_witness:
  "roleFinderContract listCollaborators True False \<and>
   roleFinderContract listCollaborators False True \<and>
   parse listCollaborators ''{button OK}'' = Inr buttonLocator \<and>
   findBySemanticLocator listCollaborators buttonLocator [] False False =
     Inr (EmptyResults \<lparr>closestFind = [], elementsFound = [[]],
                         notFound = NotFoundRole ''button'', partialFind = None\<rparr>) \<and>
   findElementsBySemanticLocator listCollaborators ''{button OK}'' [] = Inr [] \<and>
   findElementBySemanticLocator listCollaborators ''{button OK}'' [] =
     (Inl (NoSuchElementError ''found only when hidden elements are included''),
      [(False, False), (True, False), (False, True)])"
proof -
  have p: "parse listCollaborators ''{button OK}'' = Inr buttonLocator"
    by code_simp
  have run: "findBySemanticLocator listCollaborators buttonLocator [] False False =
     Inr (EmptyResults \<lparr>closestFind = [], elementsFound = [[]],
                         notFound = NotFoundRole ''button'', partialFind = None\<rparr>)"
    by code_simp
  have hid: "findBySemanticLocator listCollaborators buttonLocator [] True False =
     Inr (NonEmptyResult [[1]])"
    by code_simp
  have pres: "findBySemanticLocator listCollaborators buttonLocator [] False True =
     Inr (EmptyResults \<lparr>closestFind = [], elementsFound = [[]],
                         notFound = NotFoundRole ''button'', partialFind = None\<rparr>)"
    by code_simp
  have msg: "buildFailureMessage listCollaborators l m (x # xs) ys =
     ''found only when hidden elements are included''" for l m x xs ys
    by (simp add: listCollaborators_def documentCollaborators_def)
  from zero_matches_public_api[OF listCollaborators_contract listCollaborators_contract p run]
  have "findElementsBySemanticLocator listCollaborators ''{button OK}'' [] = Inr []"
    and "findElementBySemanticLocator listCollaborators ''{button OK}'' [] =
     (Inl (NoSuchElementError ''found only when hidden elements are included''),
      [(False, False), (True, False), (False, True)])"
    by (auto simp: hid pres msg matchesOf_def)
  with listCollaborators_contract p run show ?thesis by blast
qed

text \<open>
  Claim C3. \<^verbatim>\<open>findBySemanticNodes\<close> on the empty node sequence returns Found with the base
  set unchanged. When the matcher succeeds on the nodes before index \<open>i\<close> (the list
  \<open>bs\<close> holds the base sets it goes through) and fails at node \<open>i\<close>, the searcher returns
  NotFound with \<^verbatim>\<open>closestFind\<close> the first \<open>i\<close> nodes and with the \<^verbatim>\<open>elementsFound\<close>,
  \<^verbatim>\<open>notFound\<close> and \<^verbatim>\<open>partialFind\<close> of the failing matcher call.
\<close>

theorem findBySemanticNodes_empty_and_failure:
  "findBySemanticNodes c [] searchBase h p = Inr (NonEmptyResult searchBase) \<and>
   (length bs = Suc i \<and> bs ! 0 = searchBase \<and> i < length nodes \<and>
    (\<forall>j<i. findBySemanticNode c (nodes ! j) (bs ! j) h p = Inr (NonEmptyResult (bs ! Suc j))) \<and>
    findBySemanticNode c (nodes ! i) (bs ! i) h p = Inr (EmptyResults failure)
    \<longrightarrow>
    findBySemanticNodes c nodes searchBase h p =
      Inr (EmptyResults \<lparr>closestFind = take i nodes, elementsFound = elementsFound failure,
                          notFound = notFound failure, partialFind = partialFind failure\<rparr>))"
proof (intro conjI impI)
  show "findBySemanticNodes c [] searchBase h p = Inr (NonEmptyResult searchBase)"
    by (simp add: findBySemanticNodes_def nodesFrom_done)
next
  assume a: "length bs = Suc i \<and> bs ! 0 = searchBase \<and> i < length nodes \<and>
    (\<forall>j<i. findBySemanticNode c (nodes ! j) (bs ! j) h p = Inr (NonEmptyResult (bs ! Suc j))) \<and>
    findBySemanticNode c (nodes ! i) (bs ! i) h p = Inr (EmptyResults failure)"
  then have "findBySemanticNodesFrom c nodes 0 (bs ! 0) h p =
       Inr (EmptyResults \<lparr>closestFind = take i nodes, elementsFound = elementsFound failure,
                           notFound = notFound failure, partialFind = partialFind failure\<rparr>)"
    by (intro nodesFrom_chain) auto
  with a show "findBySemanticNodes c nodes searchBase h p =
      Inr (EmptyResults \<lparr>closestFind = take i nodes, elementsFound = elementsFound failure,
                          notFound = notFound failure, partialFind = partialFind failure\<rparr>)"
    by (simp add: findBySemanticNodes_def)
qed

text \<open>
  The list role matches below the root, then no list item has level 3: failure at index 1.
\<close>

theorem findBySemanticNodes_empty_and_failure_witness:
  "findBySemanticNodes listCollaborators [] [[]] False False = Inr (NonEmptyResult [[]]) \<and>
   length [[[]], [[0], [0, 0 :: nat]]] = Suc 1 \<and>
   [[[]], [[0], [0, 0 :: nat]]] ! 0 = [[]] \<and>
   1 < length [semanticNode ''list'' [] None, semanticNode ''listitem'' [(''level'', ''3'')] None] \<and>
   findBySemanticNode listCollaborators (semanticNode ''list'' [] None) [[]] False False =
     Inr (NonEmptyResult [[0], [0, 0]]) \<and>
   findBySemanticNode listCollaborators (semanticNode ''listitem'' [(''level'', ''3'')] None)
       [[0], [0, 0]] False False =
     Inr (EmptyResults
            \<lparr>closestFind = [], elementsFound = [[0, 0, 0], [0, 1]],
             notFound = NotFoundAttribute ''level'' ''3'',
             partialFind = Some \<lparr>partialRole = ''listitem'', partialAttributes = []\<rparr>\<rparr>) \<and>
   findBySemanticNodes listCollaborators
       [semanticNode ''list'' [] None, semanticNode ''listitem'' [(''level'', ''3'')] None]
       [[]] False False =
     Inr (EmptyResults
            \<lparr>closestFind = [semanticNode ''list'' [] None],
             elementsFound = [[0, 0, 0], [0, 1]],
             notFound = NotFoundAttribute ''level'' ''3'',
             partialFind = Some \<lparr>partialRole = ''listitem'', partialAttributes = []\<rparr>\<rparr>)"
proof -
  have first: "findBySemanticNode listCollaborators (semanticNode ''list'' [] None) [[]] False False =
     Inr (NonEmptyResult [[0], [0, 0]])"
    by code_simp
  have second: "findBySemanticNode listCollaborators
       (semanticNode ''listitem'' [(''level'', ''3'')] None) [[0], [0, 0]] False False =
     Inr (EmptyResults
            \<lparr>closestFind = [], elementsFound = [[0, 0, 0], [0, 1]],
             notFound = NotFoundAttribute ''level'' ''3'',
             partialFind = Some \<lparr>partialRole = ''listitem'', partialAttributes = []\<rparr>\<rparr>)"
    by code_simp
  from findBySemanticNodes_empty_and_failure[of listCollaborators "[[]]" False False
      "[[[]], [[0], [0, 0]]]" 1
      "[semanticNode ''list'' [] None, semanticNode ''listitem'' [(''level'', ''3'')] None]"
      "\<lparr>closestFind = [], elementsFound = [[0, 0, 0], [0, 1]],
        notFound = NotFoundAttribute ''level'' ''3'',
        partialFind = Some \<lparr>partialRole = ''listitem'', partialAttributes = []\<rparr>\<rparr>"]
    first second
  show ?thesis by simp
qed

text \<open>
  Claim C4. For a non-empty, sorted, outermost-filtered candidate set on which the role
  finder returns nothing for any base, \<^verbatim>\<open>findBySemanticNode\<close> returns NotFound with
  \<^verbatim>\<open>notFound = {role}\<close>, \<^verbatim>\<open>elementsFound\<close> the input candidate set and no \<^verbatim>\<open>partialFind\<close>.
\<close>

theorem role_stage_failure:
  assumes "searchBase \<noteq> []" "sorted_wrt (<) searchBase" "outermostFiltered searchBase"
    and "concat (map (\<lambda>base. findByRole c (role node) base h p) searchBase) = []"
  shows "findBySemanticNode c node searchBase h p =
           Inr (EmptyResults \<lparr>closestFind = [], elementsFound = searchBase,
                               notFound = NotFoundRole (role node), partialFind = None\<rparr>)"
  using assms(4) outermostFiltered_outerNodesOnly[OF assms(3)]
  by (simp add: findBySemanticNode_unfold roleElements_def)

text \<open>
  No button is below the inner list or the item \<^verbatim>\<open>d\<close>.
\<close>

theorem role_stage_failure_witness:
  "[[0, 0], [0, 1 :: nat]] \<noteq> [] \<and> sorted_wrt (<) [[0, 0], [0, 1 :: nat]] \<and>
   outermostFiltered [[0, 0], [0, 1]] \<and>
   concat (map (\<lambda>base. findByRole listCollaborators
                          (role (semanticNode ''button'' [] None)) base False False)
             [[0, 0], [0, 1]]) = [] \<and>
   findBySemanticNode listCollaborators (semanticNode ''button'' [] None) [[0, 0], [0, 1]]
       False False =
     Inr (EmptyResults \<lparr>closestFind = [], elementsFound = [[0, 0], [0, 1]],
                         notFound = NotFoundRole ''button'', partialFind = None\<rparr>)"
proof -
  have h1: "[[0, 0], [0, 1 :: nat]] \<noteq> []" by simp
  have h2: "sorted_wrt (<) [[0, 0], [0, 1 :: nat]]" by simp
  have h3: "outermostFiltered [[0, 0], [0, 1]]" by code_simp
  have h4: "concat (map (\<lambda>base. findByRole listCollaborators
                          (role (semanticNode ''button'' [] None)) base False False)
             [[0, 0], [0, 1]]) = []"
    by code_simp
  from role_stage_failure[OF h1 h2 h3 h4] h1 h2 h3 h4 show ?thesis
    by (simp add: semanticNode_def)
qed

text \<open>
  Claim C5. Let the attribute at position \<open>i\<close> of the node (keys unique, as in an object)
  be the first that no remaining candidate satisfies: the candidates \<open>before\<close> it, those
  role-matched elements that satisfy the attributes at positions below \<open>i\<close>, are not
  empty, and none of them has the declared value. Then \<^verbatim>\<open>findBySemanticNode\<close> returns
  NotFound naming that attribute and value, with \<^verbatim>\<open>elementsFound = before\<close> and
  \<^verbatim>\<open>partialFind\<close> holding the role and exactly the attributes at positions below \<open>i\<close>,
  whatever attributes follow.
\<close>

theorem attribute_stage_failure:
  assumes "distinct (map fst (attributes node))"
    and "i < length (attributes node)"
    and "attributes node ! i = (n, v)"
    and "before = filter (matchesAll c (take i (attributes node))) (roleElements c node searchBase h p)"
    and "before \<noteq> []"
    and "filter (\<lambda>element. computeARIAAttributeValue c element n = Some v) before = []"
  shows "findBySemanticNode c node searchBase h p =
           Inr (EmptyResults
                  \<lparr>closestFind = [], elementsFound = before,
                   notFound = NotFoundAttribute n v,
                   partialFind =
                     Some \<lparr>partialRole = role node,
                           partialAttributes = take i (attributes node)\<rparr>\<rparr>)"
proof -
  have attrs: "attributes node = take i (attributes node) @ (n, v) # drop (Suc i) (attributes node)"
    using assms(2,3) by (metis id_take_nth_drop)
  have ne: "roleElements c node searchBase h p \<noteq> []"
    using assms(4,5) by auto
  have "attributeStage c (role node)
          (take i (attributes node) @ (n, v) # drop (Suc i) (attributes node))
          (roleElements c node searchBase h p) [] =
        Inl \<lparr>closestFind = [], elementsFound = before, notFound = NotFoundAttribute n v,
             partialFind = Some \<lparr>partialRole = role node,
                                 partialAttributes = [] @ take i (attributes node)\<rparr>\<rparr>"
    unfolding assms(4)
  proof (rule attributeStage_failure)
    show "distinct (map fst (take i (attributes node) @ (n, v) # drop (Suc i) (attributes node)))"
      using assms(1) attrs by simp
    show "filter (matchesAll c (take i (attributes node))) (roleElements c node searchBase h p) \<noteq> []"
      using assms(4,5) by simp
    show "filter (\<lambda>e. computeARIAAttributeValue c e n = Some v)
            (filter (matchesAll c (take i (attributes node))) (roleElements c node searchBase h p)) = []"
      using assms(4,6) by simp
    show "distinct (map fst ([] @ take i (attributes node)))"
      using assms(1) by (simp add: take_map[symmetric] distinct_take)
  qed
  with attrs have "attributeStage c (role node) (attributes node)
          (roleElements c node searchBase h p) [] =
        Inl \<lparr>closestFind = [], elementsFound = before, notFound = NotFoundAttribute n v,
             partialFind = Some \<lparr>partialRole = role node,
                                 partialAttributes = take i (attributes node)\<rparr>\<rparr>"
    by simp
  with ne show ?thesis by (simp add: findBySemanticNode_unfold)
qed

text \<open>
  Three declared attributes; the second one, level 3, eliminates both list items.
\<close>

theorem attribute_stage_failure_witness:
  "distinct (map fst [(''checked'', ''true''), (''level'', ''3''), (''expanded'', ''true'')]) \<and>
   (1 :: nat) < length [(''checked'', ''true''), (''level'', ''3''), (''expanded'', ''true'')] \<and>
   [(''checked'', ''true''), (''level'', ''3''), (''expanded'', ''true'')] ! 1 = (''level'', ''3'') \<and>
   filter (matchesAll listCollaborators [(''checked'', ''true'')])
     (roleElements listCollaborators
        (semanticNode ''listitem''
           [(''checked'', ''true''), (''level'', ''3''), (''expanded'', ''true'')] None)
        [[0]] False False) = [[0, 0, 0], [0, 1]] \<and>
   filter (\<lambda>element. computeARIAAttributeValue listCollaborators element ''level'' = Some ''3'')
     [[0, 0, 0], [0, 1]] = [] \<and>
   findBySemanticNode listCollaborators
       (semanticNode ''listitem''
          [(''checked'', ''true''), (''level'', ''3''), (''expanded'', ''true'')] None)
       [[0]] False False =
     Inr (EmptyResults
            \<lparr>closestFind = [], elementsFound = [[0, 0, 0], [0, 1]],
             notFound = NotFoundAttribute ''level'' ''3'',
             partialFind =
               Some \<lparr>partialRole = ''listitem'',
                     partialAttributes = [(''checked'', ''true'')]\<rparr>\<rparr>)"
proof -
  let ?attrs = "[(''checked'', ''true''), (''level'', ''3''), (''expanded'', ''true'')]"
  let ?node = "semanticNode ''listitem'' ?attrs None"
  have a: "attributes ?node = ?attrs" "role ?node = ''listitem''"
    by (simp_all add: semanticNode_def)
  have h1: "distinct (map fst (attributes ?node))" unfolding a by simp
  have h2: "1 < length (attributes ?node)" unfolding a by simp
  have h3: "attributes ?node ! 1 = (''level'', ''3'')" unfolding a by simp
  have before: "filter (matchesAll listCollaborators [(''checked'', ''true'')])
     (roleElements listCollaborators ?node [[0]] False False) = [[0, 0, 0], [0, 1]]"
    by code_simp
  have h4: "[[0, 0, 0], [0, 1]] =
      filter (matchesAll listCollaborators (take 1 (attributes ?node)))
        (roleElements listCollaborators ?node [[0]] False False)"
    unfolding a using before by simp
  have h5: "[[0, 0, 0], [0, 1 :: nat]] \<noteq> []" by simp
  have h6: "filter (\<lambda>element. computeARIAAttributeValue listCollaborators element ''level'' =
        Some ''3'') [[0, 0, 0], [0, 1]] = []"
    by code_simp
  from attribute_stage_failure[OF h1 h2 h3 h4 h5 h6] before h6 show ?thesis
    unfolding a by simp
qed

text \<open>
  Claim C6. With a non-empty \<^verbatim>\<open>postOuter\<close> and every per-base search NotFound, the combiner
  returns NotFound whose \<^verbatim>\<open>closestFind\<close> is all of \<^verbatim>\<open>preOuter\<close> followed by the
  \<^verbatim>\<open>closestFind\<close> of the selected per-base diagnostic, and the selected one is the first,
  in base order, among those with the longest \<^verbatim>\<open>closestFind\<close>: every diagnostic before
  it is strictly shorter, every one after it is at most as long. So of two bases the one
  that satisfies more leading predicates is the one extended.
\<close>

theorem most_specific_diagnostic:
  assumes "findBySemanticNodes c (preOuter l) [root] h p = Inr (NonEmptyResult bases)"
    and "postOuter l \<noteq> []"
    and "map (\<lambda>base. findBySemanticNodes c (postOuter l) [base] h p) bases =
           map (\<lambda>m. Inr (EmptyResults m)) metas"
  shows "\<exists>before selected after.
           metas = before @ selected # after \<and>
           (\<forall>x \<in> set before. length (closestFind x) < length (closestFind selected)) \<and>
           (\<forall>x \<in> set after. length (closestFind x) \<le> length (closestFind selected)) \<and>
           findBySemanticLocator c l root h p =
             Inr (EmptyResults
                    \<lparr>closestFind = preOuter l @ closestFind selected,
                     elementsFound = elementsFound selected,
                     notFound = notFound selected,
                     partialFind = partialFind selected\<rparr>)"
proof -
  from assms(3) have res:
    "mapResults (\<lambda>base. findBySemanticNodes c (postOuter l) [base] h p) bases =
       Inr (map EmptyResults metas)"
    by (simp add: mapResults_Inr_iff comp_def)
  have none: "mergeFound (map EmptyResults metas) = []"
    by (auto simp: mergeFound_Nil_iff)
  have cast: "asEmptyResultsMetadata (map EmptyResults metas) = Inr metas"
    by (simp add: asEmptyResultsMetadata_Inr_iff)
  from assms(1) have "bases \<noteq> []" by (rule nodes_Found_nonempty)
  with assms(3) have "metas \<noteq> []" by (metis map_is_Nil_conv)
  then obtain m ms where metas: "metas = m # ms" by (cases metas) auto
  from mostSpecific_split[of m ms] obtain before after where
    "m # ms = before @ mostSpecific m ms # after"
    "\<forall>x \<in> set before. length (closestFind x) < length (closestFind (mostSpecific m ms))"
    "\<forall>x \<in> set after. length (closestFind x) \<le> length (closestFind (mostSpecific m ms))"
    by blast
  moreover have "findBySemanticLocator c l root h p =
      Inr (EmptyResults
             \<lparr>closestFind = preOuter l @ closestFind (mostSpecific m ms),
              elementsFound = elementsFound (mostSpecific m ms),
              notFound = notFound (mostSpecific m ms),
              partialFind = partialFind (mostSpecific m ms)\<rparr>)"
  proof -
    have "combineMostSpecific metas = Inr (mostSpecific m ms)"
      by (simp add: metas)
    with locator_diagnostic[OF assms(1,2) res none] show ?thesis
      by (simp only: cast sum.case)
  qed
  ultimately show ?thesis unfolding metas by blast
qed

text \<open>
  Two sibling lists: below the first the search fails at the button, below the second one
  predicate later, at the link; the second diagnostic is selected.
\<close>

theorem most_specific_diagnostic_witness:
  "findBySemanticNodes siblingCollaborators (preOuter siblingLocator) [[]] False False =
     Inr (NonEmptyResult [[0], [1]]) \<and>
   postOuter siblingLocator \<noteq> [] \<and>
   map (\<lambda>base. findBySemanticNodes siblingCollaborators (postOuter siblingLocator) [base]
                  False False) [[0], [1]] =
     map (\<lambda>m. Inr (EmptyResults m))
       [\<lparr>closestFind = [semanticNode ''listitem'' [] None], elementsFound = [[0, 0]],
         notFound = NotFoundRole ''button'', partialFind = None\<rparr>,
        \<lparr>closestFind = [semanticNode ''listitem'' [] None, semanticNode ''button'' [] None],
         elementsFound = [[1, 0, 0]], notFound = NotFoundRole ''link'',
         partialFind = None\<rparr>] \<and>
   (\<exists>before selected after.
      [\<lparr>closestFind = [semanticNode ''listitem'' [] None], elementsFound = [[0, 0]],
        notFound = NotFoundRole ''button'', partialFind = None\<rparr>,
       \<lparr>closestFind = [semanticNode ''listitem'' [] None, semanticNode ''button'' [] None],
        elementsFound = [[1, 0, 0]], notFound = NotFoundRole ''link'',
        partialFind = None\<rparr>] = before @ selected # after \<and>
      (\<forall>x \<in> set before. length (closestFind x) < length (closestFind selected)) \<and>
      (\<forall>x \<in> set after. length (closestFind x) \<le> length (closestFind selected)) \<and>
      findBySemanticLocator siblingCollaborators siblingLocator [] False False =
        Inr (EmptyResults
               \<lparr>closestFind = preOuter siblingLocator @ closestFind selected,
                elementsFound = elementsFound selected,
                notFound = notFound selected,
                partialFind = partialFind selected\<rparr>)) \<and>
   findBySemanticLocator siblingCollaborators siblingLocator [] False False =
     Inr (EmptyResults
            \<lparr>closestFind = [semanticNode ''list'' [] None, semanticNode ''listitem'' [] None,
                            semanticNode ''button'' [] None],
             elementsFound = [[1, 0, 0]], notFound = NotFoundRole ''link'',
             partialFind = None\<rparr>)"
proof -
  have h1: "findBySemanticNodes siblingCollaborators (preOuter siblingLocator) [[]] False False =
     Inr (NonEmptyResult [[0], [1]])"
    by code_simp
  have h2: "postOuter siblingLocator \<noteq> []"
    by (simp add: siblingLocator_def)
  have h3: "map (\<lambda>base. findBySemanticNodes siblingCollaborators (postOuter siblingLocator) [base]
                  False False) [[0], [1]] =
     map (\<lambda>m. Inr (EmptyResults m))
       [\<lparr>closestFind = [semanticNode ''listitem'' [] None], elementsFound = [[0, 0]],
         notFound = NotFoundRole ''button'', partialFind = None\<rparr>,
        \<lparr>closestFind = [semanticNode ''listitem'' [] None, semanticNode ''button'' [] None],
         elementsFound = [[1, 0, 0]], notFound = NotFoundRole ''link'',
         partialFind = None\<rparr>]"
    by code_simp
  have run: "findBySemanticLocator siblingCollaborators siblingLocator [] False False =
     Inr (EmptyResults
            \<lparr>closestFind = [semanticNode ''list'' [] None, semanticNode ''listitem'' [] None,
                            semanticNode ''button'' [] None],
             elementsFound = [[1, 0, 0]], notFound = NotFoundRole ''link'',
             partialFind = None\<rparr>)"
    by code_simp
  from most_specific_diagnostic[OF h1 h2 h3] h1 h2 h3 run show ?thesis
    by (intro conjI) assumption+
qed

text \<open>
  Claim C7 says that the merged Found sequence is outermost-filtered across the
  concatenation of all per-base results. The source filters the result of each base on
  its own (its comment: filter the results for each base individually) and then only
  sorts and removes duplicates. In the nested document the base \<^verbatim>\<open>a\<close> keeps \<^verbatim>\<open>x\<close> and the
  base \<^verbatim>\<open>b\<close> keeps \<^verbatim>\<open>y\<close>, which lies inside \<^verbatim>\<open>x\<close>: both are in the merged result.
\<close>

theorem merged_found_not_outermost:
  "findBySemanticLocator nestedCollaborators listLocator [] False False =
     Inr (NonEmptyResult [[0, 0], [0, 0, 0, 0]]) \<and> isAncestor [0, 0] [0, 0, 0, 0]"
  by code_simp

text \<open>
  Claim C7, amended. With a non-empty \<^verbatim>\<open>postOuter\<close> and at least one base with a Found
  result, the combiner returns Found; the merged sequence has no element twice, is sorted
  by document order, and its elements are exactly the elements that are outermost within
  the Found result of some base.
\<close>

theorem merged_found_per_base_outermost:
  assumes "findBySemanticNodes c (preOuter l) [root] h p = Inr (NonEmptyResult bases)"
    and "postOuter l \<noteq> []"
    and "mapResults (\<lambda>base. findBySemanticNodes c (postOuter l) [base] h p) bases = Inr results"
    and "r \<in> set results" and "isNonEmptyResult r"
  shows "\<exists>es. findBySemanticLocator c l root h p = Inr (NonEmptyResult es) \<and>
           distinct es \<and> sorted es \<and>
           set es = (\<Union>r \<in> {r \<in> set results. isNonEmptyResult r}. set (outerNodesOnly (found r)))"
  using mergeFound_nonempty[OF assms(3,4,5)] locator_merge[OF assms(1,2,3)]
  by (simp add: sorted_merged set_mergeFound)

text \<open>
  The nested document again.
\<close>

theorem merged_found_per_base_outermost_witness:
  "findBySemanticNodes nestedCollaborators (preOuter listLocator) [[]] False False =
     Inr (NonEmptyResult [[0], [0, 0, 0]]) \<and>
   postOuter listLocator \<noteq> [] \<and>
   mapResults (\<lambda>base. findBySemanticNodes nestedCollaborators (postOuter listLocator) [base]
                         False False) [[0], [0, 0, 0]] =
     Inr [NonEmptyResult [[0, 0], [0, 0, 0, 0]], NonEmptyResult [[0, 0, 0, 0]]] \<and>
   NonEmptyResult [[0, 0, 0, 0]] \<in>
     set [NonEmptyResult [[0, 0], [0, 0, 0, 0]], NonEmptyResult [[0, 0, 0, 0]]] \<and>
   isNonEmptyResult (NonEmptyResult [[0, 0, 0, 0]]) \<and>
   (\<exists>es. findBySemanticLocator nestedCollaborators listLocator [] False False =
           Inr (NonEmptyResult es) \<and>
         distinct es \<and> sorted es \<and>
         set es =
           (\<Union>r \<in> {r \<in> set [NonEmptyResult [[0, 0], [0, 0, 0, 0]],
                               NonEmptyResult [[0, 0, 0, 0]]]. isNonEmptyResult r}.
              set (outerNodesOnly (found r))))"
proof -
  have h1: "findBySemanticNodes nestedCollaborators (preOuter listLocator) [[]] False False =
     Inr (NonEmptyResult [[0], [0, 0, 0]])"
    by code_simp
  have h2: "postOuter listLocator \<noteq> []"
    by (simp add: listLocator_def)
  have h3: "mapResults (\<lambda>base. findBySemanticNodes nestedCollaborators (postOuter listLocator)
                         [base] False False) [[0], [0, 0, 0]] =
     Inr [NonEmptyResult [[0, 0], [0, 0, 0, 0]], NonEmptyResult [[0, 0, 0, 0]]]"
    by code_simp
  have h4: "NonEmptyResult [[0, 0, 0, 0]] \<in>
     set [NonEmptyResult [[0, 0], [0, 0, 0, 0]], NonEmptyResult [[0, 0, 0, 0]]]"
    by simp
  have h5: "isNonEmptyResult (NonEmptyResult [[0, 0, 0, 0]])" by simp
  from merged_found_per_base_outermost[OF h1 h2 h3 h4 h5] h1 h2 h3 h4 h5 show ?thesis
    by (intro conjI) assumption+
qed

text \<open>
  Claim C8. Permuting the declared attributes of a node changes neither whether
  \<^verbatim>\<open>findBySemanticNode\<close> succeeds, nor the surviving elements when it does, nor whether it
  throws.
\<close>

theorem attribute_order_irrelevant:
  assumes "mset attrs' = mset (attributes node)"
  shows "(findBySemanticNode c (node\<lparr>attributes := attrs'\<rparr>) base h p = Inr (NonEmptyResult es) \<longleftrightarrow>
            findBySemanticNode c node base h p = Inr (NonEmptyResult es)) \<and>
         ((\<exists>m. findBySemanticNode c (node\<lparr>attributes := attrs'\<rparr>) base h p = Inr (EmptyResults m)) \<longleftrightarrow>
            (\<exists>m. findBySemanticNode c node base h p = Inr (EmptyResults m))) \<and>
         (findBySemanticNode c (node\<lparr>attributes := attrs'\<rparr>) base h p = Inl e \<longleftrightarrow>
            findBySemanticNode c node base h p = Inl e)"
  by (simp add: findBySemanticNode_Found_iff findBySemanticNode_Empty_iff
      findBySemanticNode_Error_iff survivors_attribute_order[OF assms])

text \<open>
  The two orders of the attributes checked and level both leave the item \<^verbatim>\<open>c\<close>.
\<close>

theorem attribute_order_irrelevant_witness:
  "mset [(''level'', ''2''), (''checked'', ''true'')] =
     mset (attributes (semanticNode ''listitem'' [(''checked'', ''true''), (''level'', ''2'')] None)) \<and>
   findBySemanticNode listCollaborators
       (semanticNode ''listitem'' [(''checked'', ''true''), (''level'', ''2'')] None)
       [[0]] False False = Inr (NonEmptyResult [[0, 0, 0]]) \<and>
   findBySemanticNode listCollaborators
       ((semanticNode ''listitem'' [(''checked'', ''true''), (''level'', ''2'')] None)
          \<lparr>attributes := [(''level'', ''2''), (''checked'', ''true'')]\<rparr>)
       [[0]] False False = Inr (NonEmptyResult [[0, 0, 0]])"
proof -
  let ?node = "semanticNode ''listitem'' [(''checked'', ''true''), (''level'', ''2'')] None"
  have h: "mset [(''level'', ''2''), (''checked'', ''true'')] = mset (attributes ?node)"
    by (simp add: semanticNode_def)
  have run: "findBySemanticNode listCollaborators ?node [[0]] False False =
      Inr (NonEmptyResult [[0, 0, 0]])"
    by code_simp
  from attribute_order_irrelevant[OF h, of listCollaborators "[[0]]" False False "[[0, 0, 0]]"]
    h run
  show ?thesis by blast
qed

text \<open>
  Claim C9. When \<^verbatim>\<open>findBySemanticLocator\<close> returns NotFound, the locator has at least one
  predicate and \<^verbatim>\<open>closestFind\<close> has at most one node fewer than the locator has
  predicates in both segments together. When the matcher fails on the very first
  predicate of the locator, the result is NotFound with an empty \<^verbatim>\<open>closestFind\<close>.
\<close>

theorem closestFind_bound:
  "(findBySemanticLocator c l root h p = Inr (EmptyResults m) \<longrightarrow>
      1 \<le> length (preOuter l) + length (postOuter l) \<and>
      length (closestFind m) \<le> length (preOuter l) + length (postOuter l) - 1) \<and>
   (preOuter l @ postOuter l \<noteq> [] \<and>
    findBySemanticNode c (hd (preOuter l @ postOuter l)) [root] h p = Inr (EmptyResults m0) \<longrightarrow>
      (\<exists>m'. findBySemanticLocator c l root h p = Inr (EmptyResults m') \<and> closestFind m' = []))"
  using locator_closestFind[of c l root h p m] first_predicate_failure[of l c root h p m0]
  by auto

text \<open>
  Four predicates and a \<^verbatim>\<open>closestFind\<close> of three, for the sibling lists; a first predicate
  that fails, for the hidden button.
\<close>

theorem closestFind_bound_witness:
  "findBySemanticLocator siblingCollaborators siblingLocator [] False False =
     Inr (EmptyResults
            \<lparr>closestFind = [semanticNode ''list'' [] None, semanticNode ''listitem'' [] None,
                            semanticNode ''button'' [] None],
             elementsFound = [[1, 0, 0]], notFound = NotFoundRole ''link'',
             partialFind = None\<rparr>) \<and>
   1 \<le> length (preOuter siblingLocator) + length (postOuter siblingLocator) \<and>
   length [semanticNode ''list'' [] None, semanticNode ''listitem'' [] None,
           semanticNode ''button'' [] None]
     \<le> length (preOuter siblingLocator) + length (postOuter siblingLocator) - 1 \<and>
   preOuter buttonLocator @ postOuter buttonLocator \<noteq> [] \<and>
   findBySemanticNode listCollaborators (hd (preOuter buttonLocator @ postOuter buttonLocator))
       [[]] False False =
     Inr (EmptyResults \<lparr>closestFind = [], elementsFound = [[]],
                         notFound = NotFoundRole ''button'', partialFind = None\<rparr>) \<and>
   (\<exists>m'. findBySemanticLocator listCollaborators buttonLocator [] False False =
            Inr (EmptyResults m') \<and> closestFind m' = [])"
proof -
  have run: "findBySemanticLocator siblingCollaborators siblingLocator [] False False =
     Inr (EmptyResults
            \<lparr>closestFind = [semanticNode ''list'' [] None, semanticNode ''listitem'' [] None,
                            semanticNode ''button'' [] None],
             elementsFound = [[1, 0, 0]], notFound = NotFoundRole ''link'',
             partialFind = None\<rparr>)"
    by code_simp
  have ne: "preOuter buttonLocator @ postOuter buttonLocator \<noteq> []"
    by (simp add: buttonLocator_def)
  have first: "findBySemanticNode listCollaborators
       (hd (preOuter buttonLocator @ postOuter buttonLocator)) [[]] False False =
     Inr (EmptyResults \<lparr>closestFind = [], elementsFound = [[]],
                         notFound = NotFoundRole ''button'', partialFind = None\<rparr>)"
    by code_simp
  from closestFind_bound[of siblingCollaborators siblingLocator "[]" False False
      "\<lparr>closestFind = [semanticNode ''list'' [] None, semanticNode ''listitem'' [] None,
                       semanticNode ''button'' [] None],
        elementsFound = [[1, 0, 0]], notFound = NotFoundRole ''link'',
        partialFind = None\<rparr>"] run
  have bound: "1 \<le> length (preOuter siblingLocator) + length (postOuter siblingLocator)"
    "length [semanticNode ''list'' [] None, semanticNode ''listitem'' [] None,
           semanticNode ''button'' [] None]
     \<le> length (preOuter siblingLocator) + length (postOuter siblingLocator) - 1"
    by simp_all
  from closestFind_bound[of listCollaborators buttonLocator "[]" False False _
      "\<lparr>closestFind = [], elementsFound = [[]],
        notFound = NotFoundRole ''button'', partialFind = None\<rparr>"] ne first
  have "\<exists>m'. findBySemanticLocator listCollaborators buttonLocator [] False False =
            Inr (EmptyResults m') \<and> closestFind m' = []"
    by blast
  with run bound ne first show ?thesis by (intro conjI) assumption+
qed

text \<open>
  Claim C10. With a non-empty \<^verbatim>\<open>postOuter\<close>, if one of the per-base searches returned Found
  then \<^verbatim>\<open>elementsFound\<close> is not empty and the combiner returns Found: the branch that
  merges diagnostics is not taken.
\<close>

theorem found_base_gives_found:
  assumes "findBySemanticNodes c (preOuter l) [root] h p = Inr (NonEmptyResult bases)"
    and "postOuter l \<noteq> []"
    and "mapResults (\<lambda>base. findBySemanticNodes c (postOuter l) [base] h p) bases = Inr results"
    and "r \<in> set results" and "isNonEmptyResult r"
  shows "mergeFound results \<noteq> [] \<and>
         (\<exists>es. findBySemanticLocator c l root h p = Inr (NonEmptyResult es))"
  using mergeFound_nonempty[OF assms(3,4,5)] locator_merge[OF assms(1,2,3)] by simp

text \<open>
  The document of the source's comment, where both bases return Found.
\<close>

theorem found_base_gives_found_witness:
  "findBySemanticNodes listCollaborators (preOuter listLocator) [[]] False False =
     Inr (NonEmptyResult [[0], [0, 0]]) \<and>
   postOuter listLocator \<noteq> [] \<and>
   mapResults (\<lambda>base. findBySemanticNodes listCollaborators (postOuter listLocator) [base]
                         False False) [[0], [0, 0]] =
     Inr [NonEmptyResult [[0, 0, 0], [0, 1]], NonEmptyResult [[0, 0, 0]]] \<and>
   NonEmptyResult [[0, 0, 0]] \<in>
     set [NonEmptyResult [[0, 0, 0], [0, 1]], NonEmptyResult [[0, 0, 0]]] \<and>
   isNonEmptyResult (NonEmptyResult [[0, 0, 0]]) \<and>
   mergeFound [NonEmptyResult [[0, 0, 0], [0, 1]], NonEmptyResult [[0, 0, 0]]] \<noteq> [] \<and>
   (\<exists>es. findBySemanticLocator listCollaborators listLocator [] False False =
           Inr (NonEmptyResult es))"
proof -
  have h1: "findBySemanticNodes listCollaborators (preOuter listLocator) [[]] False False =
     Inr (NonEmptyResult [[0], [0, 0]])"
    by code_simp
  have h2: "postOuter listLocator \<noteq> []"
    by (simp add: listLocator_def)
  have h3: "mapResults (\<lambda>base. findBySemanticNodes listCollaborators (postOuter listLocator)
                         [base] False False) [[0], [0, 0]] =
     Inr [NonEmptyResult [[0, 0, 0], [0, 1]], NonEmptyResult [[0, 0, 0]]]"
    by code_simp
  have h4: "NonEmptyResult [[0, 0, 0]] \<in>
     set [NonEmptyResult [[0, 0, 0], [0, 1]], NonEmptyResult [[0, 0, 0]]]"
    by simp
  have h5: "isNonEmptyResult (NonEmptyResult [[0, 0, 0]])" by simp
  from found_base_gives_found[OF h1 h2 h3 h4 h5] h1 h2 h3 h4 h5 show ?thesis
    by (intro conjI) (assumption | erule conjunct1 | erule conjunct2)+
qed

end
